theory Spec2Isabelle
  imports Complex_Main
begin

section \<open>Secondary structure assignment (Action\_DSSP.cpp): the model\<close>

subsection \<open>Data model\<close>

text \<open>
  Modelled from the spec: the enumeration \<open>SStype\<close> is declared in Action\_DSSP.h, which
  is not among the sources. Its seven enumerators index the tables \<open>SSchar\<close> and
  \<open>SSname\<close> of Action\_DSSP.cpp; they are taken in the order of \<open>SSname\<close>
  (None, Para, Anti, 3-10, Alpha, Pi, Turn), the order the spec gives for the labels.
\<close>

datatype SStype =
  SECSTRUCT_NULL | SECSTRUCT_PARA | SECSTRUCT_ANTI | SECSTRUCT_3_10 |
  SECSTRUCT_ALPHA | SECSTRUCT_PI | SECSTRUCT_TURN

fun sstype_index :: "SStype \<Rightarrow> nat" where
  "sstype_index SECSTRUCT_NULL = 0"
| "sstype_index SECSTRUCT_PARA = 1"
| "sstype_index SECSTRUCT_ANTI = 2"
| "sstype_index SECSTRUCT_3_10 = 3"
| "sstype_index SECSTRUCT_ALPHA = 4"
| "sstype_index SECSTRUCT_PI = 5"
| "sstype_index SECSTRUCT_TURN = 6"

text \<open>The two tables of Action\_DSSP.cpp, lines 29 and 30.\<close>

definition SSchar :: "char list" where
  "SSchar = [CHR ''0'', CHR ''b'', CHR ''B'', CHR ''G'', CHR ''H'', CHR ''I'', CHR ''T'']"

definition SSname :: "string list" where
  "SSname = [''None'', ''Para'', ''Anti'', ''3-10'', ''Alpha'', ''Pi'', ''Turn'']"

text \<open>
  One entry of \<open>SecStruct\<close>. The atom indices \<open>C\<close>, \<open>O\<close>, \<open>N\<close>, \<open>H\<close> of the source
  are the fields \<open>atomC\<close> .. \<open>atomH\<close> (\<open>O\<close> is reserved syntax); they are \<open>int\<close>
  with \<open>-1\<close> for an absent atom.
  \<open>SSprob\<close> holds the seven occurrence counters; the source keeps them in doubles
  that are only ever incremented by one, so they are natural numbers here.
\<close>

record Residue =
  sstype :: SStype
  isSelected :: bool
  atomC :: int
  atomO :: int
  atomN :: int
  atomH :: int
  CO_HN_Hbond :: "bool list"
  SSprob :: "nat list"

text \<open>
  The fields of the action the algorithm reads and writes. \<open>Nframe\<close> is a double in the
  source that starts at 0.0 and is incremented once per frame. \<open>sumOut\<close> is the name of
  the summary file (\<open>None\<close> for the source's NULL).
\<close>

record DSSP =
  SecStruct :: "Residue list"
  Nres :: nat
  Nframe :: nat
  printString :: bool
  sumOut :: "string option"

text \<open>The residue set up by \<open>DSSP::setup\<close> for an index it has not seen before.\<close>

definition new_Residue :: "nat \<Rightarrow> Residue" where
  "new_Residue n =
     \<lparr> sstype = SECSTRUCT_NULL, isSelected = False, atomC = -1, atomO = -1, atomN = -1, atomH = -1,
       CO_HN_Hbond = replicate n False, SSprob = replicate 7 0 \<rparr>"

subsection \<open>isBonded and SSassign\<close>

definition isBonded :: "DSSP \<Rightarrow> int \<Rightarrow> int \<Rightarrow> bool" where
  "isBonded s res1 res2 =
     (if res1 < 0 then False
      else if res2 < 0 then False
      else if res1 \<ge> int (Nres s) then False
      else if res2 \<ge> int (Nres s) then False
      else if \<not> isSelected (SecStruct s ! nat res1) then False
      else if \<not> isSelected (SecStruct s ! nat res2) then False
      else CO_HN_Hbond (SecStruct s ! nat res1) ! nat res2)"

definition set_sstype :: "nat \<Rightarrow> SStype \<Rightarrow> DSSP \<Rightarrow> DSSP" where
  "set_sstype res t s =
     s\<lparr> SecStruct := (SecStruct s)[res := (SecStruct s ! res)\<lparr> sstype := t \<rparr>] \<rparr>"

function SSassign :: "nat \<Rightarrow> nat \<Rightarrow> SStype \<Rightarrow> DSSP \<Rightarrow> DSSP" where
  "SSassign res res2 typeIn s =
     (if res < res2 then
        (if res = Nres s then s
         else if \<not> isSelected (SecStruct s ! res) then SSassign (Suc res) res2 typeIn s
         else if sstype (SecStruct s ! res) = SECSTRUCT_NULL
              then SSassign (Suc res) res2 typeIn (set_sstype res typeIn s)
         else SSassign (Suc res) res2 typeIn s)
      else s)"
  by pat_completeness auto
termination
  by (relation "measure (\<lambda>(res, res2, t, s). res2 - res)") auto

declare SSassign.simps [simp del]

subsection \<open>The hydrogen bond matrix of one frame\<close>

text \<open>
  \<open>DIST\<close> is the frame's distance function \<open>F->DIST\<close> and \<open>DSSP_fac\<close> the scaling
  constant of Action\_DSSP.h; both are parameters. Double arithmetic is read as
  arithmetic on the reals.
\<close>

definition hb_energy :: "real \<Rightarrow> (int \<Rightarrow> int \<Rightarrow> real) \<Rightarrow> int \<Rightarrow> int \<Rightarrow> int \<Rightarrow> int \<Rightarrow> real" where
  "hb_energy DSSP_fac DIST c oa na h =
     (let rON = DIST oa na; rCH = DIST c h; rOH = DIST oa h; rCN = DIST c na
      in DSSP_fac * (1 / rON + 1 / rCH - 1 / rOH - 1 / rCN))"

definition set_hbond :: "nat \<Rightarrow> nat \<Rightarrow> Residue list \<Rightarrow> Residue list" where
  "set_hbond resi resj SS =
     SS[resi := (SS ! resi)\<lparr> CO_HN_Hbond := (CO_HN_Hbond (SS ! resi))[resj := True] \<rparr>]"

definition hbond_pair ::
  "real \<Rightarrow> (int \<Rightarrow> int \<Rightarrow> real) \<Rightarrow> nat \<Rightarrow> nat \<Rightarrow> Residue list \<Rightarrow> Residue list" where
  "hbond_pair DSSP_fac DIST resi resj SS =
     (if \<not> isSelected (SS ! resj) then SS
      else if resi = resj then SS
      else if atomH (SS ! resj) = -1 \<or> atomN (SS ! resj) = -1 then SS
      else if hb_energy DSSP_fac DIST (atomC (SS ! resi)) (atomO (SS ! resi))
                (atomN (SS ! resj)) (atomH (SS ! resj)) < - 0.5
           then set_hbond resi resj SS
      else SS)"

definition hbond_row ::
  "real \<Rightarrow> (int \<Rightarrow> int \<Rightarrow> real) \<Rightarrow> nat \<Rightarrow> nat \<Rightarrow> Residue list \<Rightarrow> Residue list" where
  "hbond_row DSSP_fac DIST n resi SS =
     (if \<not> isSelected (SS ! resi) then SS
      else
        let SS1 = SS[resi := (SS ! resi)\<lparr> sstype := SECSTRUCT_NULL,
                                          CO_HN_Hbond := replicate n False \<rparr>]
        in if atomC (SS1 ! resi) = -1 \<or> atomO (SS1 ! resi) = -1 then SS1
           else fold (hbond_pair DSSP_fac DIST resi) [0..<n] SS1)"

definition hbonds :: "real \<Rightarrow> (int \<Rightarrow> int \<Rightarrow> real) \<Rightarrow> DSSP \<Rightarrow> DSSP" where
  "hbonds DSSP_fac DIST s =
     s\<lparr> SecStruct := fold (hbond_row DSSP_fac DIST (Nres s)) [0..<Nres s] (SecStruct s) \<rparr>"

subsection \<open>Classification\<close>

text \<open>The loop over \<open>resj\<close> that looks for a bridge partner of \<open>resi\<close>; it stops at the
  first partner found.\<close>

fun beta_loop :: "nat \<Rightarrow> nat list \<Rightarrow> DSSP \<Rightarrow> DSSP" where
  "beta_loop resi [] s = s"
| "beta_loop resi (resj # rest) s =
     (if \<not> isSelected (SecStruct s ! resj) then beta_loop resi rest s
      else if \<bar>int resi - int resj\<bar> > 2 then
        (if (isBonded s (int resi - 1) (int resj) \<and> isBonded s (int resj) (int resi + 1)) \<or>
            (isBonded s (int resj - 1) (int resi) \<and> isBonded s (int resi) (int resj + 1))
         then set_sstype resi SECSTRUCT_PARA s
         else if (isBonded s (int resi - 1) (int resj + 1) \<and>
                  isBonded s (int resj - 1) (int resi + 1)) \<or>
                 (isBonded s (int resi) (int resj) \<and> isBonded s (int resj) (int resi))
         then set_sstype resi SECSTRUCT_ANTI s
         else beta_loop resi rest s)
      else beta_loop resi rest s)"

text \<open>The part of one iteration of the first loop after the bridge search.\<close>

definition helix_3_10_pi :: "nat \<Rightarrow> DSSP \<Rightarrow> DSSP" where
  "helix_3_10_pi resi s =
     (if isBonded s (int resi - 1) (int resi + 2) \<and> isBonded s (int resi) (int resi + 3)
      then SSassign resi (resi + 3) SECSTRUCT_3_10 s
      else if isBonded s (int resi - 1) (int resi + 4) \<and> isBonded s (int resi) (int resi + 5)
      then SSassign resi (resi + 5) SECSTRUCT_PI s
      else s)"

definition ss_step :: "nat \<Rightarrow> DSSP \<Rightarrow> DSSP" where
  "ss_step resi s =
     (if \<not> isSelected (SecStruct s ! resi) then s
      else if isBonded s (int resi - 1) (int resi + 3) \<and> isBonded s (int resi) (int resi + 4)
      then SSassign resi (resi + 4) SECSTRUCT_ALPHA s
      else if sstype (SecStruct s ! resi) = SECSTRUCT_NULL then
        (let s1 = beta_loop resi [0..<Nres s] s
         in if sstype (SecStruct s1 ! resi) \<noteq> SECSTRUCT_NULL then s1
            else helix_3_10_pi resi s1)
      else helix_3_10_pi resi s)"

text \<open>The loop \<open>for (resj=5; resj > 2; resj--)\<close> of the Turn pass, with its break.\<close>

function turn_spans :: "nat \<Rightarrow> nat \<Rightarrow> DSSP \<Rightarrow> DSSP" where
  "turn_spans resi resj s =
     (if resj > 2 then
        (if isBonded s (int resi) (int resi + int resj)
         then SSassign (resi + 1) (resi + resj) SECSTRUCT_TURN s
         else turn_spans resi (resj - 1) s)
      else s)"
  by pat_completeness auto
termination
  by (relation "measure (\<lambda>(resi, resj, s). resj)") auto

declare turn_spans.simps [simp del]

definition turn_step :: "nat \<Rightarrow> DSSP \<Rightarrow> DSSP" where
  "turn_step resi s =
     (if \<not> isSelected (SecStruct s ! resi) then s else turn_spans resi 5 s)"

definition classify :: "DSSP \<Rightarrow> DSSP" where
  "classify s = fold turn_step [0..<Nres s] (fold ss_step [0..<Nres s] s)"

subsection \<open>Storing the frame and averaging\<close>

text \<open>
  What one frame sends to its output: the line of characters \<open>SSline\<close> added to the
  string data set (when \<open>printString\<close>), or the integer codes added to \<open>SSdata\<close>.
  \<open>SSdata\<close> is allocated by \<open>setup\<close> exactly when \<open>printString\<close> is false.
\<close>

datatype frame_output = SSline string | SSdata "nat list"

text \<open>One iteration of the loop that stores the frame: the counter of the residue's
  label is incremented and its code is appended to the output.\<close>

definition store_step ::
  "bool \<Rightarrow> nat \<Rightarrow> Residue list \<times> string \<times> nat list \<Rightarrow> Residue list \<times> string \<times> nat list" where
  "store_step pS resi st =
     (case st of (SS, line, dat) \<Rightarrow>
        if \<not> isSelected (SS ! resi) then (SS, line, dat)
        else
          let k = sstype_index (sstype (SS ! resi));
              SS' = SS[resi := (SS ! resi)\<lparr> SSprob := (SSprob (SS ! resi))[k := SSprob (SS ! resi) ! k + 1] \<rparr>]
          in if \<not> pS then (SS', line, dat @ [k])
             else (SS', line @ [SSchar ! k], dat))"

definition action :: "real \<Rightarrow> (int \<Rightarrow> int \<Rightarrow> real) \<Rightarrow> DSSP \<Rightarrow> DSSP \<times> frame_output" where
  "action DSSP_fac DIST s =
     (let s1 = classify (hbonds DSSP_fac DIST s)
      in case fold (store_step (printString s1)) [0..<Nres s1] (SecStruct s1, [], []) of
           (SS, line, dat) \<Rightarrow>
             (s1\<lparr> SecStruct := SS, Nframe := Nframe s1 + 1 \<rparr>,
              if printString s1 then SSline line else SSdata dat))"




section \<open>Density-based clustering (Cluster\_DBSCAN.cpp): the model\<close>

subsection \<open>Data model\<close>

text \<open>The three frame statuses, the characters of \<open>Status\<close>.\<close>

definition UNASSIGNED :: char where "UNASSIGNED = CHR ''U''"

definition NOISE :: char where "NOISE = CHR ''N''"

definition INCLUSTER :: char where "INCLUSTER = CHR ''C''"

text \<open>
  The arguments \<open>SetupCluster\<close> reads, after parsing: the value that follows the key
  \<open>minpoints\<close> and the one that follows \<open>epsilon\<close> (\<open>None\<close> when the key is not
  given), and whether the key \<open>sievetoframe\<close> is present. \<open>getKeyInt\<close> and
  \<open>getKeyDouble\<close> return their default for a key that is not given.
\<close>

record ArgList =
  minpoints_arg :: "int option"
  epsilon_arg :: "real option"
  sievetoframe_arg :: bool

definition getKeyInt :: "int option \<Rightarrow> int \<Rightarrow> int" where
  "getKeyInt v def = (case v of None \<Rightarrow> def | Some x \<Rightarrow> x)"

definition getKeyDouble :: "real option \<Rightarrow> real \<Rightarrow> real" where
  "getKeyDouble v def = (case v of None \<Rightarrow> def | Some x \<Rightarrow> x)"

text \<open>
  Modelled from the spec: the classes \<open>ClusterNode\<close>, \<open>ClusterList\<close>, \<open>ClusterMatrix\<close> and
  \<open>ClusterDist\<close> are not among the sources. A cluster is its frame list and a cached
  centroid, invalid (\<open>None\<close>) until it is computed; \<open>AddCluster\<close> appends a cluster to
  the cluster list and \<open>AddFrameToCluster\<close> appends a frame to a frame list. The frame
  distance matrix gives the number of frames, the ignored (sieved) rows and the
  distance of two frames. The distance strategy \<open>Cdist\<close> is a record of functions.
  Distances are doubles in the source and reals here. The members \<open>minPoints_\<close>,
  \<open>epsilon_\<close>, \<open>Status_\<close>, \<open>clusters_\<close> ... of the source are the fields \<open>minPoints\<close>,
  \<open>epsilon\<close>, \<open>Status\<close>, \<open>clusters\<close> ... of the record (a name cannot end in an underscore).
\<close>

record 'c ClusterNode =
  frameList :: "nat list"
  Cent :: "'c option"

record ClusterMatrix =
  Nframes :: nat
  IgnoringRow :: "nat \<Rightarrow> bool"
  GetElement :: "nat \<Rightarrow> nat \<Rightarrow> real"

record 'c ClusterDist =
  FrameDist :: "nat \<Rightarrow> nat \<Rightarrow> real"
  FrameCentroidDist :: "nat \<Rightarrow> 'c option \<Rightarrow> real"
  CentroidDist :: "'c option \<Rightarrow> 'c option \<Rightarrow> real"
  NewCentroid :: "nat list \<Rightarrow> 'c"

record 'c Cluster_DBSCAN =
  minPoints :: int
  epsilon :: real
  sieveToCentroid :: bool
  Status :: "char list"
  clusters :: "'c ClusterNode list"
  ClusterDistances :: "real list"
  FrameDistances :: ClusterMatrix
  Cdist :: "'c ClusterDist"

definition AddCluster :: "nat list \<Rightarrow> 'c ClusterNode list \<Rightarrow> 'c ClusterNode list" where
  "AddCluster frames cl = cl @ [\<lparr> frameList = frames, Cent = None \<rparr>]"

definition AddFrameToCluster :: "nat \<Rightarrow> 'c ClusterNode \<Rightarrow> 'c ClusterNode" where
  "AddFrameToCluster frame node = node\<lparr> frameList := frameList node @ [frame] \<rparr>"

definition CalculateCentroid :: "'c ClusterDist \<Rightarrow> 'c ClusterNode \<Rightarrow> 'c ClusterNode" where
  "CalculateCentroid cd node = node\<lparr> Cent := Some (NewCentroid cd (frameList node)) \<rparr>"

text \<open>What the model returns where the source's behaviour is undefined: an index past
  the end of a vector, or a dereference of \<open>clusters.end()\<close>.\<close>

datatype dbscan_error = IndexOutOfRange | EndIteratorDeref

text \<open>The object the constructor makes, with a distance matrix and a distance strategy.\<close>

definition new_DBSCAN :: "ClusterMatrix \<Rightarrow> 'c ClusterDist \<Rightarrow> 'c Cluster_DBSCAN" where
  "new_DBSCAN m cd =
     \<lparr> minPoints = -1, epsilon = -1.0, sieveToCentroid = True, Status = [], clusters = [],
       ClusterDistances = [], FrameDistances = m, Cdist = cd \<rparr>"

subsection \<open>SetupCluster\<close>

definition SetupCluster :: "ArgList \<Rightarrow> 'c Cluster_DBSCAN \<Rightarrow> int \<times> 'c Cluster_DBSCAN" where
  "SetupCluster analyzeArgs c =
     (let c1 = c\<lparr> minPoints := getKeyInt (minpoints_arg analyzeArgs) (-1) \<rparr>
      in if minPoints c1 < 1 then (1, c1)
         else
           let c2 = c1\<lparr> epsilon := getKeyDouble (epsilon_arg analyzeArgs) (-1.0) \<rparr>
           in if epsilon c2 \<le> 0.0 then (1, c2)
              else (0, c2\<lparr> sieveToCentroid := \<not> sievetoframe_arg analyzeArgs \<rparr>))"

subsection \<open>RegionQuery and Cluster\<close>

definition RegionQuery :: "'c Cluster_DBSCAN \<Rightarrow> nat list \<Rightarrow> nat \<Rightarrow> nat list" where
  "RegionQuery c FramesToCluster point =
     filter (\<lambda>otherpoint. point \<noteq> otherpoint \<and>
               GetElement (FrameDistances c) point otherpoint < epsilon c)
       FramesToCluster"

text \<open>
  The body of the expansion loop, in two halves. \<open>visit\<close>: a neighbour not yet visited
  is marked, and when it has at least \<open>minPoints\<close> neighbours of its own these are
  appended to \<open>NeighborPts\<close>. \<open>absorb\<close>: a neighbour that is not yet \<open>INCLUSTER\<close> is added
  to \<open>cluster_frames\<close> and marked.
\<close>

definition visit ::
  "(nat \<Rightarrow> nat list) \<Rightarrow> int \<Rightarrow> nat \<Rightarrow> nat list \<times> bool list \<Rightarrow> nat list \<times> bool list" where
  "visit rq minPts neighbor_pt st =
     (case st of (NeighborPts, Visited) \<Rightarrow>
        if \<not> Visited ! neighbor_pt then
          (let Npts2 = rq neighbor_pt
           in (if int (length Npts2) \<ge> minPts then NeighborPts @ Npts2 else NeighborPts,
               Visited[neighbor_pt := True]))
        else (NeighborPts, Visited))"

definition absorb :: "nat \<Rightarrow> char list \<times> nat list \<Rightarrow> char list \<times> nat list" where
  "absorb neighbor_pt st =
     (case st of (Stat, cluster_frames) \<Rightarrow>
        if Stat ! neighbor_pt \<noteq> INCLUSTER
        then (Stat[neighbor_pt := INCLUSTER], cluster_frames @ [neighbor_pt])
        else (Stat, cluster_frames))"

definition unvisited :: "bool list \<Rightarrow> nat" where
  "unvisited Visited = length (filter (\<lambda>b. \<not> b) Visited)"

lemma unvisited_update:
  "n < length V \<Longrightarrow> \<not> V ! n \<Longrightarrow> unvisited (V[n := True]) < unvisited V"
proof (induction V arbitrary: n)
  case Nil
  then show ?case by simp
next
  case (Cons b V)
  then show ?case by (cases n) (auto simp: unvisited_def)
qed

lemma visit_progress:
  assumes "visit rq minPts n (NP, V) = (NP1, V1)" "n < length V"
  shows "unvisited V1 < unvisited V \<or> (V1 = V \<and> NP1 = NP)"
  using assms by (auto simp: visit_def Let_def unvisited_update split: if_splits)

text \<open>The loop \<open>for (idx = 0; idx < endidx; ++idx)\<close> over the growing \<open>NeighborPts\<close>;
  \<open>endidx\<close> is always the size of \<open>NeighborPts\<close>.\<close>

function expand ::
  "(nat \<Rightarrow> nat list) \<Rightarrow> int \<Rightarrow> nat \<Rightarrow> nat list \<Rightarrow> bool list \<Rightarrow> char list \<Rightarrow> nat list \<Rightarrow>
     dbscan_error + (bool list \<times> char list \<times> nat list)" where
  "expand rq minPts idx NeighborPts Visited Stat cluster_frames =
     (if idx < length NeighborPts then
        (let neighbor_pt = NeighborPts ! idx
         in if neighbor_pt \<ge> length Visited \<or> neighbor_pt \<ge> length Stat then Inl IndexOutOfRange
            else
              case visit rq minPts neighbor_pt (NeighborPts, Visited) of
                (NeighborPts1, Visited1) \<Rightarrow>
                  case absorb neighbor_pt (Stat, cluster_frames) of
                    (Stat1, cluster_frames1) \<Rightarrow>
                      expand rq minPts (idx + 1) NeighborPts1 Visited1 Stat1 cluster_frames1)
      else Inr (Visited, Stat, cluster_frames))"
  by pat_completeness auto
termination
proof (relation "measures [\<lambda>(rq, minPts, idx, NP, V, S, cf). unvisited V,
                           \<lambda>(rq, minPts, idx, NP, V, S, cf). length NP - idx]", goal_cases)
  case 1
  show ?case by simp
next
  case (2 rq minPts idx NP V S cf n NP1 V1 S1 cf1)
  then have "visit rq minPts (NP ! idx) (NP, V) = (NP1, V1)" "NP ! idx < length V"
    by simp_all
  from visit_progress [OF this] 2 show ?case by auto
qed

declare expand.simps [simp del]

text \<open>
  One iteration of the loop over \<open>FramesToCluster\<close>; the state is \<open>Visited\<close>, \<open>Status_\<close> and
  the cluster list. \<open>std::sort\<close> followed by \<open>std::unique\<close> is \<open>remdups_adj (sort ...)\<close>.
\<close>

definition cluster_point ::
  "'c Cluster_DBSCAN \<Rightarrow> nat list \<Rightarrow> nat \<Rightarrow> bool list \<times> char list \<times> 'c ClusterNode list \<Rightarrow>
     dbscan_error + (bool list \<times> char list \<times> 'c ClusterNode list)" where
  "cluster_point c FramesToCluster point st =
     (case st of (Visited, Stat, cl) \<Rightarrow>
        if point \<ge> length Visited \<or> point \<ge> length Stat then Inl IndexOutOfRange
        else if \<not> Visited ! point then
          (let Visited1 = Visited[point := True];
               NeighborPts = RegionQuery c FramesToCluster point
           in if int (length NeighborPts) < minPoints c
              then Inr (Visited1, Stat[point := NOISE], cl)
              else
                case expand (RegionQuery c FramesToCluster) (minPoints c) 0
                       NeighborPts Visited1 Stat [point] of
                  Inl e \<Rightarrow> Inl e
                | Inr (Visited2, Stat2, cluster_frames) \<Rightarrow>
                    Inr (Visited2, Stat2, AddCluster (remdups_adj (sort cluster_frames)) cl))
        else Inr (Visited, Stat, cl))"

fun cluster_loop ::
  "'c Cluster_DBSCAN \<Rightarrow> nat list \<Rightarrow> nat list \<Rightarrow> bool list \<times> char list \<times> 'c ClusterNode list \<Rightarrow>
     dbscan_error + (bool list \<times> char list \<times> 'c ClusterNode list)" where
  "cluster_loop c FramesToCluster [] st = Inr st"
| "cluster_loop c FramesToCluster (point # rest) st =
     (case cluster_point c FramesToCluster point st of
        Inl e \<Rightarrow> Inl e
      | Inr st' \<Rightarrow> cluster_loop c FramesToCluster rest st')"

definition FramesToCluster_of :: "ClusterMatrix \<Rightarrow> nat list" where
  "FramesToCluster_of m = filter (\<lambda>frame. \<not> IgnoringRow m frame) [0..<Nframes m]"

text \<open>The centroid distances of all pairs of clusters \<open>C1\<close> before \<open>C2\<close>, row by row.\<close>

fun centroid_distances :: "'c ClusterDist \<Rightarrow> 'c ClusterNode list \<Rightarrow> real list" where
  "centroid_distances cd [] = []"
| "centroid_distances cd (C1 # rest) =
     map (\<lambda>C2. CentroidDist cd (Cent C1) (Cent C2)) rest @ centroid_distances cd rest"

definition Cluster :: "'c Cluster_DBSCAN \<Rightarrow> dbscan_error + 'c Cluster_DBSCAN" where
  "Cluster c =
     (let FramesToCluster = FramesToCluster_of (FrameDistances c);
          Visited = replicate (Nframes (FrameDistances c)) False;
          Stat = replicate (Nframes (FrameDistances c)) UNASSIGNED
      in case cluster_loop c FramesToCluster FramesToCluster (Visited, Stat, clusters c) of
           Inl e \<Rightarrow> Inl e
         | Inr (Visited', Stat', cl) \<Rightarrow>
             (let cl' = map (CalculateCentroid (Cdist c)) cl
              in Inr (c\<lparr> Status := Stat', clusters := cl',
                        ClusterDistances := centroid_distances (Cdist c) cl' \<rparr>)))"

subsection \<open>ClusterResults\<close>

text \<open>The frame numbers (counted from 1) printed after \<open>#NOISE_FRAMES:\<close>.\<close>

definition ClusterResults :: "'c Cluster_DBSCAN \<Rightarrow> nat list" where
  "ClusterResults c =
     map (\<lambda>i. i + 1) (filter (\<lambda>i. Status c ! i = NOISE) [0..<length (Status c)])"

subsection \<open>AddSievedFrames\<close>

text \<open>The largest finite double, \<open>(2 - 2^-52) * 2^1023\<close>, written out.\<close>

definition DBL_MAX :: real where
  "DBL_MAX = 179769313486231570814527423731704356798070567525844996598917476803157260780028538760589558632766878171540458953514382464234321326889464182768467546703537516986049910576551282076245490090389328944075868508455133942304583236903222948165808559332123348274797826204144723168738177180919299881250404026184124858368"

text \<open>The search for the closest centroid; \<open>minNode\<close> is the position of a cluster in
  the cluster list, \<open>None\<close> for \<open>clusters_.end()\<close>.\<close>

fun closest_centroid ::
  "'c ClusterDist \<Rightarrow> nat \<Rightarrow> 'c ClusterNode list \<Rightarrow> nat \<Rightarrow> real \<times> nat option \<Rightarrow> real \<times> nat option" where
  "closest_centroid cd frame [] k st = st"
| "closest_centroid cd frame (Cnode # rest) k st =
     (case st of (mindist, minNode) \<Rightarrow>
        let dist = FrameCentroidDist cd frame (Cent Cnode)
        in if dist < mindist then closest_centroid cd frame rest (k + 1) (dist, Some k)
           else closest_centroid cd frame rest (k + 1) (mindist, minNode))"

text \<open>The loop over the frames of the closest cluster, with its break.\<close>

fun frame_within_epsilon :: "'c ClusterDist \<Rightarrow> real \<Rightarrow> nat \<Rightarrow> nat list \<Rightarrow> bool" where
  "frame_within_epsilon cd eps frame [] = False"
| "frame_within_epsilon cd eps frame (m # rest) =
     (if FrameDist cd frame m < eps then True else frame_within_epsilon cd eps frame rest)"

text \<open>The decision for one sieved frame: \<open>goodFrame\<close> and \<open>minNode\<close>.\<close>

definition sieve_frame :: "'c Cluster_DBSCAN \<Rightarrow> nat \<Rightarrow> dbscan_error + (bool \<times> nat option)" where
  "sieve_frame c frame =
     (case closest_centroid (Cdist c) frame (clusters c) 0 (DBL_MAX, None) of
        (mindist, minNode) \<Rightarrow>
          if sieveToCentroid c \<or> mindist < epsilon c then Inr (True, minNode)
          else
            (case minNode of
               None \<Rightarrow> Inl EndIteratorDeref
             | Some k \<Rightarrow>
                 Inr (frame_within_epsilon (Cdist c) (epsilon c) frame (frameList (clusters c ! k)),
                      minNode)))"

text \<open>The first loop of \<open>AddSievedFrames\<close>: \<open>frameToCluster\<close> and the two counters
  \<open>Nsieved\<close> and \<open>n_sieved_noise\<close>.\<close>

fun sieve_loop ::
  "'c Cluster_DBSCAN \<Rightarrow> nat list \<Rightarrow> nat option list \<times> nat \<times> nat \<Rightarrow>
     dbscan_error + (nat option list \<times> nat \<times> nat)" where
  "sieve_loop c [] st = Inr st"
| "sieve_loop c (frame # rest) st =
     (case st of (frameToCluster, Nsieved, n_sieved_noise) \<Rightarrow>
        if IgnoringRow (FrameDistances c) frame then
          (case sieve_frame c frame of
             Inl e \<Rightarrow> Inl e
           | Inr (goodFrame, minNode) \<Rightarrow>
               if goodFrame
               then sieve_loop c rest (frameToCluster[frame := minNode], Nsieved + 1, n_sieved_noise)
               else sieve_loop c rest (frameToCluster, Nsieved + 1, n_sieved_noise + 1))
        else sieve_loop c rest st)"

text \<open>The second loop: the frames are added to their clusters.\<close>

definition add_frame :: "nat option list \<Rightarrow> nat \<Rightarrow> 'c ClusterNode list \<Rightarrow> 'c ClusterNode list" where
  "add_frame frameToCluster frame cl =
     (case frameToCluster ! frame of
        None \<Rightarrow> cl
      | Some k \<Rightarrow> cl[k := AddFrameToCluster frame (cl ! k)])"

definition AddSievedFrames ::
  "'c Cluster_DBSCAN \<Rightarrow> dbscan_error + ('c Cluster_DBSCAN \<times> nat \<times> nat)" where
  "AddSievedFrames c =
     (let nframes = Nframes (FrameDistances c)
      in case sieve_loop c [0..<nframes] (replicate nframes None, 0, 0) of
           Inl e \<Rightarrow> Inl e
         | Inr (frameToCluster, Nsieved, n_sieved_noise) \<Rightarrow>
             Inr (c\<lparr> clusters := fold (add_frame frameToCluster) [0..<nframes] (clusters c) \<rparr>,
                  n_sieved_noise, Nsieved))"

section \<open>Predicates of the statements\<close>

subsection \<open>Secondary structure\<close>

text \<open>
  The test the inner loop of the hydrogen bond pass makes for the pair \<open>(i, j)\<close>, and the
  entry \<open>HBond(i, j)\<close> it leaves for a selected residue \<open>i\<close>. \<open>same_static\<close>: two
  residue tables agree on everything but the labels and the hydrogen bond rows.
\<close>

definition hb_cond :: "real \<Rightarrow> (int \<Rightarrow> int \<Rightarrow> real) \<Rightarrow> Residue list \<Rightarrow> nat \<Rightarrow> nat \<Rightarrow> bool" where
  "hb_cond Q DIST SS i j =
     (isSelected (SS ! j) \<and> i \<noteq> j \<and> atomH (SS ! j) \<noteq> -1 \<and> atomN (SS ! j) \<noteq> -1 \<and>
      hb_energy Q DIST (atomC (SS ! i)) (atomO (SS ! i)) (atomN (SS ! j)) (atomH (SS ! j)) < - 0.5)"

definition same_static :: "Residue list \<Rightarrow> Residue list \<Rightarrow> bool" where
  "same_static SS SS' =
     (length SS' = length SS \<and>
      (\<forall>k < length SS. isSelected (SS' ! k) = isSelected (SS ! k) \<and>
         atomC (SS' ! k) = atomC (SS ! k) \<and> atomO (SS' ! k) = atomO (SS ! k) \<and>
         atomN (SS' ! k) = atomN (SS ! k) \<and> atomH (SS' ! k) = atomH (SS ! k) \<and>
         SSprob (SS' ! k) = SSprob (SS ! k)))"

definition hbond_of :: "real \<Rightarrow> (int \<Rightarrow> int \<Rightarrow> real) \<Rightarrow> Residue list \<Rightarrow> nat \<Rightarrow> nat \<Rightarrow> bool" where
  "hbond_of Q DIST SS i j =
     (atomC (SS ! i) \<noteq> -1 \<and> atomO (SS ! i) \<noteq> -1 \<and> hb_cond Q DIST SS i j)"

text \<open>The reset at the top of the hydrogen bond pass.\<close>

definition reset_row :: "nat \<Rightarrow> nat \<Rightarrow> Residue list \<Rightarrow> Residue list" where
  "reset_row n i SS = SS[i := (SS ! i)\<lparr> sstype := SECSTRUCT_NULL, CO_HN_Hbond := replicate n False \<rparr>]"

text \<open>
  The classification as the sequence of its loop iterations, first pass then Turn pass,
  and the state after the first \<open>k\<close> of them.
\<close>

definition classify_steps :: "DSSP \<Rightarrow> (DSSP \<Rightarrow> DSSP) list" where
  "classify_steps s = map ss_step [0..<Nres s] @ map turn_step [0..<Nres s]"

definition state_at :: "DSSP \<Rightarrow> nat \<Rightarrow> DSSP" where
  "state_at s k = fold (\<lambda>f. f) (take k (classify_steps s)) s"

text \<open>From \<open>s\<close> to \<open>s'\<close> no label that is set changes: a label only moves from None
  to another type.\<close>

definition label_mono :: "DSSP \<Rightarrow> DSSP \<Rightarrow> bool" where
  "label_mono s s' =
     (length (SecStruct s') = length (SecStruct s) \<and>
      (\<forall>r < length (SecStruct s).
         sstype (SecStruct s ! r) \<noteq> SECSTRUCT_NULL \<longrightarrow>
         sstype (SecStruct s' ! r) = sstype (SecStruct s ! r)))"

text \<open>The first span in the order 5, 4, 3 with \<open>HBond(i, i+span)\<close>.\<close>

definition turn_span :: "DSSP \<Rightarrow> nat \<Rightarrow> nat option" where
  "turn_span s i =
     (if isBonded s (int i) (int i + 5) then Some 5
      else if isBonded s (int i) (int i + 4) then Some 4
      else if isBonded s (int i) (int i + 3) then Some 3
      else None)"

text \<open>The code of a label as the specification lists it.\<close>

fun label_code :: "SStype \<Rightarrow> char" where
  "label_code SECSTRUCT_NULL = CHR ''0''"
| "label_code SECSTRUCT_PARA = CHR ''b''"
| "label_code SECSTRUCT_ANTI = CHR ''B''"
| "label_code SECSTRUCT_3_10 = CHR ''G''"
| "label_code SECSTRUCT_ALPHA = CHR ''H''"
| "label_code SECSTRUCT_PI = CHR ''I''"
| "label_code SECSTRUCT_TURN = CHR ''T''"

subsection \<open>Clustering\<close>

text \<open>
  For a region query \<open>rq\<close> and the threshold \<open>m\<close>: a core point has at least \<open>m\<close>
  neighbours; a core neighbour is a neighbour of some core point among the frames \<open>F\<close>.
\<close>

definition core_point :: "(nat \<Rightarrow> nat list) \<Rightarrow> int \<Rightarrow> nat \<Rightarrow> bool" where
  "core_point rq m p = (m \<le> int (length (rq p)))"

definition core_neighbor :: "(nat \<Rightarrow> nat list) \<Rightarrow> int \<Rightarrow> nat list \<Rightarrow> nat \<Rightarrow> bool" where
  "core_neighbor rq m F f = (\<exists>p \<in> set F. core_point rq m p \<and> f \<in> set (rq p))"

text \<open>The region query returns candidate frames only.\<close>

definition rq_closed :: "(nat \<Rightarrow> nat list) \<Rightarrow> nat list \<Rightarrow> bool" where
  "rq_closed rq F = (\<forall>p. set (rq p) \<subseteq> set F)"

text \<open>
  What the arrays \<open>Visited\<close> (\<open>V\<close>) and \<open>Status_\<close> (\<open>S\<close>) satisfy throughout
  \<open>Cluster\<close>: only candidate frames are visited, a frame marked \<open>INCLUSTER\<close> is a
  visited neighbour of a core point, a frame marked \<open>NOISE\<close> is visited and not core, and
  a visited frame left \<open>UNASSIGNED\<close> is core (the seed of a cluster).
\<close>

definition inv_status :: "(nat \<Rightarrow> nat list) \<Rightarrow> int \<Rightarrow> nat list \<Rightarrow> bool list \<Rightarrow> char list \<Rightarrow> bool" where
  "inv_status rq m F V S =
     (length S = length V \<and> (\<forall>f \<in> set F. f < length V) \<and>
      (\<forall>f < length V.
         (S ! f = INCLUSTER \<or> S ! f = NOISE \<or> S ! f = UNASSIGNED) \<and>
         (V ! f \<longrightarrow> f \<in> set F) \<and>
         (S ! f = INCLUSTER \<longrightarrow> V ! f \<and> core_neighbor rq m F f) \<and>
         (S ! f = NOISE \<longrightarrow> V ! f \<and> \<not> core_point rq m f) \<and>
         (S ! f = UNASSIGNED \<and> V ! f \<longrightarrow> core_point rq m f)))"

text \<open>Every neighbour of a visited core point is \<open>INCLUSTER\<close> or still waits in the
  part \<open>P\<close> of \<open>NeighborPts\<close> that the loop has not reached.\<close>

definition inv_pending ::
  "(nat \<Rightarrow> nat list) \<Rightarrow> int \<Rightarrow> nat list \<Rightarrow> bool list \<Rightarrow> char list \<Rightarrow> nat set \<Rightarrow> bool" where
  "inv_pending rq m F V S P =
     (\<forall>q \<in> set F. V ! q \<and> core_point rq m q \<longrightarrow>
        (\<forall>f \<in> set (rq q). S ! f = INCLUSTER \<or> f \<in> P))"

definition inv_visited :: "nat set \<Rightarrow> bool list \<Rightarrow> bool" where
  "inv_visited A V = (\<forall>f \<in> A. f < length V \<and> V ! f)"

definition inv_expand ::
  "(nat \<Rightarrow> nat list) \<Rightarrow> int \<Rightarrow> nat list \<Rightarrow> nat set \<Rightarrow> nat \<Rightarrow> nat list \<Rightarrow> bool list \<Rightarrow> char list \<Rightarrow> bool" where
  "inv_expand rq m F A idx NP V S =
     (idx \<le> length NP \<and> (\<forall>x \<in> set NP. core_neighbor rq m F x) \<and>
      inv_status rq m F V S \<and> inv_pending rq m F V S (set (drop idx NP)) \<and> inv_visited A V)"

text \<open>The frames of all clusters; a symmetric region query; clusters without a common
  frame.\<close>

definition members :: "'c ClusterNode list \<Rightarrow> nat set" where
  "members cl = (\<Union>C \<in> set cl. set (frameList C))"

definition rq_sym :: "(nat \<Rightarrow> nat list) \<Rightarrow> nat list \<Rightarrow> bool" where
  "rq_sym rq F = (\<forall>p \<in> set F. \<forall>q \<in> set (rq p). p \<in> set (rq q))"

definition disjoint_clusters :: "'c ClusterNode list \<Rightarrow> bool" where
  "disjoint_clusters cl =
     (\<forall>i < length cl. \<forall>j < length cl. i \<noteq> j \<longrightarrow>
        set (frameList (cl ! i)) \<inter> set (frameList (cl ! j)) = {})"

text \<open>
  The cluster list \<open>cl\<close> and the frames \<open>cfs\<close> of the cluster under construction: together
  they hold exactly the frames marked \<open>INCLUSTER\<close> and the visited frames left
  \<open>UNASSIGNED\<close>; they do not overlap; a recorded member that is not \<open>INCLUSTER\<close> is the
  neighbour of no core point; the frame lists are sorted and without repetition.
\<close>

definition inv_clusters ::
  "(nat \<Rightarrow> nat list) \<Rightarrow> int \<Rightarrow> nat list \<Rightarrow> 'c ClusterNode list \<Rightarrow> nat set \<Rightarrow> bool list \<Rightarrow> char list \<Rightarrow> bool" where
  "inv_clusters rq m F cl cfs V S =
     ((\<forall>f. f \<in> members cl \<union> cfs \<longleftrightarrow>
            f < length V \<and> (S ! f = INCLUSTER \<or> (V ! f \<and> S ! f = UNASSIGNED))) \<and>
      members cl \<inter> cfs = {} \<and>
      (\<forall>f \<in> members cl. S ! f \<noteq> INCLUSTER \<longrightarrow> \<not> core_neighbor rq m F f) \<and>
      disjoint_clusters cl \<and>
      (\<forall>C \<in> set cl. sorted (frameList C) \<and> distinct (frameList C)))"

text \<open>The invariant of the expansion loop that starts from the status array \<open>S0\<close>.\<close>

definition inv_loop ::
  "bool \<Rightarrow> (nat \<Rightarrow> nat list) \<Rightarrow> int \<Rightarrow> nat list \<Rightarrow> nat set \<Rightarrow> 'c ClusterNode list \<Rightarrow> char list \<Rightarrow>
     nat \<Rightarrow> nat list \<Rightarrow> bool list \<Rightarrow> char list \<Rightarrow> nat list \<Rightarrow> bool" where
  "inv_loop sy rq m F A cl S0 idx NP V S cf =
     (inv_expand rq m F A idx NP V S \<and>
      length S0 = length S \<and> (\<forall>f < length S. S ! f = S0 ! f \<or> S ! f = INCLUSTER) \<and>
      (sy \<longrightarrow> inv_clusters rq m F cl (set cf) V S))"

text \<open>The state between two iterations of the loop over \<open>FramesToCluster\<close>: nothing is
  pending; the frames of \<open>A\<close> have been visited.\<close>

definition inv_quiet ::
  "bool \<Rightarrow> (nat \<Rightarrow> nat list) \<Rightarrow> int \<Rightarrow> nat list \<Rightarrow> nat set \<Rightarrow> 'c ClusterNode list \<Rightarrow>
     bool list \<Rightarrow> char list \<Rightarrow> bool" where
  "inv_quiet sy rq m F A cl V S =
     (inv_status rq m F V S \<and> inv_pending rq m F V S {} \<and> inv_visited A V \<and>
      (sy \<longrightarrow> inv_clusters rq m F cl {} V S))"

text \<open>The moves of a frame's status that the code makes.\<close>

definition status_le :: "char \<Rightarrow> char \<Rightarrow> bool" where
  "status_le a b =
     (a = b \<or> (a = UNASSIGNED \<and> b = NOISE) \<or> (a = UNASSIGNED \<and> b = INCLUSTER) \<or>
      (a = NOISE \<and> b = INCLUSTER))"

definition status_mono :: "char list \<Rightarrow> char list \<Rightarrow> bool" where
  "status_mono S S' = (length S' = length S \<and> (\<forall>f < length S. status_le (S ! f) (S' ! f)))"

text \<open>The status array after the first \<open>k\<close> iterations of the loop over
  \<open>FramesToCluster\<close>.\<close>

definition status_after :: "'c Cluster_DBSCAN \<Rightarrow> nat \<Rightarrow> char list" where
  "status_after c k =
     (let F = FramesToCluster_of (FrameDistances c); n = Nframes (FrameDistances c)
      in case cluster_loop c F (take k F) (replicate n False, replicate n UNASSIGNED, clusters c) of
           Inl e \<Rightarrow> []
         | Inr (V, S, cl) \<Rightarrow> S)"

text \<open>
  The cluster at position \<open>k\<close> is the closest one to a frame: its centroid distance is
  below \<open>DBL_MAX\<close>, strictly below that of every earlier cluster and at most that of
  every later one.
\<close>

definition centroid_dist :: "'c Cluster_DBSCAN \<Rightarrow> nat \<Rightarrow> nat \<Rightarrow> real" where
  "centroid_dist c frame k = FrameCentroidDist (Cdist c) frame (Cent (clusters c ! k))"

definition nearest_centroid :: "'c Cluster_DBSCAN \<Rightarrow> nat \<Rightarrow> nat \<Rightarrow> bool" where
  "nearest_centroid c frame k =
     (k < length (clusters c) \<and> centroid_dist c frame k < DBL_MAX \<and>
      (\<forall>j < length (clusters c).
         (j < k \<longrightarrow> centroid_dist c frame k < centroid_dist c frame j) \<and>
         (k \<le> j \<longrightarrow> centroid_dist c frame k \<le> centroid_dist c frame j)))"

definition member_within :: "'c Cluster_DBSCAN \<Rightarrow> nat \<Rightarrow> nat \<Rightarrow> bool" where
  "member_within c frame k =
     (\<exists>m \<in> set (frameList (clusters c ! k)). FrameDist (Cdist c) frame m < epsilon c)"

text \<open>The state of the search after the first \<open>k0\<close> clusters.\<close>

definition closest_upto ::
  "'c ClusterDist \<Rightarrow> nat \<Rightarrow> 'c ClusterNode list \<Rightarrow> nat \<Rightarrow> real \<Rightarrow> nat option \<Rightarrow> bool" where
  "closest_upto cd frame cl k0 md mn =
     (case mn of
        None \<Rightarrow> md = DBL_MAX \<and> (\<forall>j < k0. DBL_MAX \<le> FrameCentroidDist cd frame (Cent (cl ! j)))
      | Some k \<Rightarrow>
          k < k0 \<and> md = FrameCentroidDist cd frame (Cent (cl ! k)) \<and> md < DBL_MAX \<and>
          (\<forall>j < k0. (j < k \<longrightarrow> md < FrameCentroidDist cd frame (Cent (cl ! j))) \<and>
                    (k \<le> j \<longrightarrow> md \<le> FrameCentroidDist cd frame (Cent (cl ! j)))))"

text \<open>Under the frame-distance policy a sieved frame goes to cluster \<open>k\<close> exactly when
  \<open>k\<close> is the closest cluster and the centroid or one of the members is within
  \<open>epsilon\<close>.\<close>

definition restored_to :: "'c Cluster_DBSCAN \<Rightarrow> nat \<Rightarrow> nat \<Rightarrow> bool" where
  "restored_to c frame k =
     (nearest_centroid c frame k \<and>
      (centroid_dist c frame k < epsilon c \<or> member_within c frame k))"

section \<open>Example inputs\<close>

text \<open>
  Four residues; residue 0 has C (atom 0) and O (atom 1), residue 3 has N (atom 2) and
  H (atom 3), and the distances give an energy below -0.5 for the pair (0, 3). In
  \<open>ex_turn\<close> all four residues are selected, in \<open>ex_gap\<close> residue 2 is not.
\<close>

definition ex_DIST :: "int \<Rightarrow> int \<Rightarrow> real" where
  "ex_DIST a b = (if a = 1 \<and> b = 3 then 2 else if a = 1 \<and> b = 2 then 3 else 4)"

definition ex_turn :: DSSP where
  "ex_turn =
     \<lparr> SecStruct =
         [(new_Residue 4)\<lparr> isSelected := True, atomC := 0, atomO := 1 \<rparr>,
          (new_Residue 4)\<lparr> isSelected := True \<rparr>,
          (new_Residue 4)\<lparr> isSelected := True \<rparr>,
          (new_Residue 4)\<lparr> isSelected := True, atomN := 2, atomH := 3 \<rparr>],
       Nres = 4, Nframe = 0, printString = True, sumOut = Some ''dssp.sum'' \<rparr>"

definition ex_gap :: DSSP where
  "ex_gap =
     \<lparr> SecStruct =
         [(new_Residue 4)\<lparr> isSelected := True, atomC := 0, atomO := 1 \<rparr>,
          (new_Residue 4)\<lparr> isSelected := True \<rparr>,
          new_Residue 4,
          (new_Residue 4)\<lparr> isSelected := True, atomN := 2, atomH := 3 \<rparr>],
       Nres = 4, Nframe = 0, printString = True, sumOut = Some ''dssp.sum'' \<rparr>"

text \<open>A distance strategy on frames that are points of the real line; the centroid of
  a cluster is the mean of its frames.\<close>

definition line_Cdist :: "(nat \<Rightarrow> real) \<Rightarrow> real ClusterDist" where
  "line_Cdist pos =
     \<lparr> FrameDist = (\<lambda>i j. \<bar>pos i - pos j\<bar>),
       FrameCentroidDist = (\<lambda>i ce. case ce of None \<Rightarrow> 0 | Some x \<Rightarrow> \<bar>pos i - x\<bar>),
       CentroidDist = (\<lambda>a b. case (a, b) of (Some x, Some y) \<Rightarrow> \<bar>x - y\<bar> | _ \<Rightarrow> 0),
       NewCentroid = (\<lambda>fs. sum_list (map pos fs) / real (length fs)) \<rparr>"

definition line_matrix :: "(nat \<Rightarrow> real) \<Rightarrow> nat \<Rightarrow> (nat \<Rightarrow> bool) \<Rightarrow> ClusterMatrix" where
  "line_matrix pos n ign =
     \<lparr> Nframes = n, IgnoringRow = ign, GetElement = (\<lambda>i j. \<bar>pos i - pos j\<bar>) \<rparr>"

text \<open>The object after \<open>SetupCluster\<close> with the given \<open>minpoints\<close> and \<open>epsilon\<close>,
  with or without \<open>sievetoframe\<close>.\<close>

definition configured :: "int \<Rightarrow> real \<Rightarrow> bool \<Rightarrow> 'c Cluster_DBSCAN \<Rightarrow> 'c Cluster_DBSCAN" where
  "configured mp eps stf c =
     snd (SetupCluster \<lparr> minpoints_arg = Some mp, epsilon_arg = Some eps, sievetoframe_arg = stf \<rparr> c)"

text \<open>Frames 0, 1, 2 lie within 1.0 of each other and frame 3 is far away.\<close>

definition ex_pos4 :: "nat \<Rightarrow> real" where
  "ex_pos4 i = (if i = 0 then 0 else if i = 1 then 0.4 else if i = 2 then 0.8 else 5)"

definition ex_db4 :: "real Cluster_DBSCAN" where
  "ex_db4 = configured 2 1 False (new_DBSCAN (line_matrix ex_pos4 4 (\<lambda>i. False)) (line_Cdist ex_pos4))"

text \<open>Three frames in a row, 0.5 apart: only the middle one has two neighbours.\<close>

definition ex_pos3 :: "nat \<Rightarrow> real" where
  "ex_pos3 i = real i / 2"

definition ex_db3 :: "real Cluster_DBSCAN" where
  "ex_db3 = configured 2 (3 / 4) False (new_DBSCAN (line_matrix ex_pos3 3 (\<lambda>i. False)) (line_Cdist ex_pos3))"

text \<open>The same three frames with a larger \<open>epsilon\<close>.\<close>

definition ex_db3_wide :: "real Cluster_DBSCAN" where
  "ex_db3_wide = configured 2 (3 / 2) False (new_DBSCAN (line_matrix ex_pos3 3 (\<lambda>i. False)) (line_Cdist ex_pos3))"

text \<open>Frames 0, 1, 2 are clustered (centroid 0.3); frame 3, at distance exactly 1.0
  from the centroid but 0.4 from frame 2, and the far frame 4 are sieved.\<close>

definition ex_pos_sieve :: "nat \<Rightarrow> real" where
  "ex_pos_sieve i = (if i = 2 then 9 / 10 else if i = 3 then 13 / 10 else if i = 4 then 5 else 0)"

definition ex_sieve :: "real Cluster_DBSCAN" where
  "ex_sieve = configured 2 1 True
     (new_DBSCAN (line_matrix ex_pos_sieve 5 (\<lambda>i. 3 \<le> i)) (line_Cdist ex_pos_sieve))"

text \<open>The object \<open>Cluster\<close> makes of \<open>ex_sieve\<close> (its statuses and its cluster).\<close>

definition ex_sieve_clustered :: "real Cluster_DBSCAN" where
  "ex_sieve_clustered =
     ex_sieve\<lparr> Status := ''CCCUU'', clusters := [\<lparr> frameList = [0, 1, 2], Cent = Some (3 / 10) \<rparr>] \<rparr>"

text \<open>Frames 0, 1, 2 coincide; the sieved frame 3 is at distance exactly 1.0 from the
  centroid and from every member, the sieved frame 4 is at 0.5.\<close>

definition ex_pos_edge :: "nat \<Rightarrow> real" where
  "ex_pos_edge i = (if i = 3 then 1 else if i = 4 then 1 / 2 else 0)"

definition ex_edge_clustered :: "real Cluster_DBSCAN" where
  "ex_edge_clustered =
     (configured 2 1 True
        (new_DBSCAN (line_matrix ex_pos_edge 5 (\<lambda>i. 3 \<le> i)) (line_Cdist ex_pos_edge)))
     \<lparr> Status := ''CCCUU'', clusters := [\<lparr> frameList = [0, 1, 2], Cent = Some 0 \<rparr>] \<rparr>"

section \<open>Secondary structure assignment: proofs\<close>

subsection \<open>The hydrogen bond matrix\<close>

lemma nth_upd_if:
  "xs[i := v] ! k = (if k = i \<and> i < length xs then v else xs ! k)"
  by (cases "i < length xs") (auto simp: nth_list_update list_update_beyond)

lemma set_hbond_nth:
  "set_hbond i j SS ! k =
     (if k = i \<and> i < length SS
      then (SS ! i)\<lparr> CO_HN_Hbond := (CO_HN_Hbond (SS ! i))[j := True] \<rparr> else SS ! k)"
  by (simp add: set_hbond_def nth_upd_if)

lemma set_hbond_length [simp]: "length (set_hbond i j SS) = length SS"
  by (simp add: set_hbond_def)

lemma same_static_refl: "same_static SS SS"
  by (simp add: same_static_def)

lemma same_static_trans: "same_static A B \<Longrightarrow> same_static B D \<Longrightarrow> same_static A D"
  by (simp add: same_static_def)

lemma hb_cond_static:
  "same_static SS SS' \<Longrightarrow> i < length SS \<Longrightarrow> j < length SS \<Longrightarrow> hb_cond Q D SS' i j = hb_cond Q D SS i j"
  by (simp add: same_static_def hb_cond_def)

lemma hbond_pair_eq:
  "hbond_pair Q D i j SS = (if hb_cond Q D SS i j then set_hbond i j SS else SS)"
  by (auto simp: hbond_pair_def hb_cond_def)

lemma set_hbond_static: "same_static SS (set_hbond i j SS)"
  by (simp add: same_static_def set_hbond_nth)

lemma hbond_pair_static: "same_static SS (hbond_pair Q D i j SS)"
  by (simp add: hbond_pair_eq set_hbond_static same_static_refl)

lemma fold_hbond_pair_static: "same_static SS (fold (hbond_pair Q D i) js SS)"
proof (induction js arbitrary: SS)
  case Nil
  show ?case by (simp add: same_static_refl)
next
  case (Cons j js)
  show ?case
    using same_static_trans [OF hbond_pair_static Cons.IH] by simp
qed

lemma fold_hbond_pair_other:
  "k \<noteq> i \<Longrightarrow> fold (hbond_pair Q D i) js SS ! k = SS ! k"
  by (induction js arbitrary: SS) (simp_all add: hbond_pair_eq set_hbond_nth)

lemma fold_hbond_pair_sstype:
  "sstype (fold (hbond_pair Q D i) js SS ! k) = sstype (SS ! k)"
  by (induction js arbitrary: SS) (simp_all add: hbond_pair_eq set_hbond_nth)

lemma fold_hbond_pair_row_length:
  "length (CO_HN_Hbond (fold (hbond_pair Q D i) js SS ! k)) = length (CO_HN_Hbond (SS ! k))"
  by (induction js arbitrary: SS) (simp_all add: hbond_pair_eq set_hbond_nth)

lemma fold_hbond_pair_row:
  assumes "i < length SS" "j < length (CO_HN_Hbond (SS ! i))" "\<forall>x \<in> set js. x < length SS"
  shows "CO_HN_Hbond (fold (hbond_pair Q D i) js SS ! i) ! j =
           (CO_HN_Hbond (SS ! i) ! j \<or> (j \<in> set js \<and> hb_cond Q D SS i j))"
  using assms
proof (induction js arbitrary: SS)
  case Nil
  show ?case by simp
next
  case (Cons x js)
  let ?S = "hbond_pair Q D i x SS"
  have st: "same_static SS ?S" by (rule hbond_pair_static)
  have len: "length ?S = length SS" using st by (simp add: same_static_def)
  have rl: "length (CO_HN_Hbond (?S ! i)) = length (CO_HN_Hbond (SS ! i))"
    by (simp add: hbond_pair_eq set_hbond_nth)
  have c: "hb_cond Q D ?S i j = hb_cond Q D SS i j"
    by (simp add: hb_cond_def hbond_pair_eq set_hbond_nth)
  have "CO_HN_Hbond (fold (hbond_pair Q D i) js ?S ! i) ! j =
          (CO_HN_Hbond (?S ! i) ! j \<or> (j \<in> set js \<and> hb_cond Q D ?S i j))"
    using Cons.prems by (intro Cons.IH) (simp_all add: len rl)
  moreover have "CO_HN_Hbond (?S ! i) ! j = (CO_HN_Hbond (SS ! i) ! j \<or> (j = x \<and> hb_cond Q D SS i j))"
    using Cons.prems(1,2) by (auto simp: hbond_pair_eq set_hbond_nth nth_upd_if)
  ultimately show ?case by (auto simp: c)
qed

lemma hbond_of_static:
  "same_static SS SS' \<Longrightarrow> i < length SS \<Longrightarrow> j < length SS \<Longrightarrow> hbond_of Q D SS' i j = hbond_of Q D SS i j"
  by (simp add: same_static_def hbond_of_def hb_cond_def)

lemma reset_row_nth:
  "reset_row n i SS ! k =
     (if k = i \<and> i < length SS
      then (SS ! i)\<lparr> sstype := SECSTRUCT_NULL, CO_HN_Hbond := replicate n False \<rparr> else SS ! k)"
  by (simp add: reset_row_def nth_upd_if)

lemma reset_row_static: "same_static SS (reset_row n i SS)"
  by (simp add: same_static_def reset_row_nth) (simp add: reset_row_def)

lemma hbond_row_eq:
  "hbond_row Q D n i SS =
     (if \<not> isSelected (SS ! i) then SS
      else if atomC (reset_row n i SS ! i) = -1 \<or> atomO (reset_row n i SS ! i) = -1
           then reset_row n i SS
      else fold (hbond_pair Q D i) [0..<n] (reset_row n i SS))"
  by (simp add: hbond_row_def reset_row_def Let_def)

lemma hbond_row_static: "same_static SS (hbond_row Q D n i SS)"
  by (auto simp: hbond_row_eq same_static_refl reset_row_static
        intro: same_static_trans [OF reset_row_static fold_hbond_pair_static])

lemma hbond_row_other: "k \<noteq> i \<Longrightarrow> hbond_row Q D n i SS ! k = SS ! k"
  by (simp add: hbond_row_eq fold_hbond_pair_other reset_row_nth)

lemma hbond_row_unselected: "\<not> isSelected (SS ! i) \<Longrightarrow> hbond_row Q D n i SS = SS"
  by (simp add: hbond_row_eq)

lemma hbond_row_self:
  assumes "i < length SS" "n \<le> length SS" "isSelected (SS ! i)"
  shows "sstype (hbond_row Q D n i SS ! i) = SECSTRUCT_NULL"
    and "length (CO_HN_Hbond (hbond_row Q D n i SS ! i)) = n"
    and "j < n \<Longrightarrow> CO_HN_Hbond (hbond_row Q D n i SS ! i) ! j = hbond_of Q D SS i j"
proof -
  let ?R = "reset_row n i SS"
  have R: "?R ! i = (SS ! i)\<lparr> sstype := SECSTRUCT_NULL, CO_HN_Hbond := replicate n False \<rparr>"
    using assms(1) by (simp add: reset_row_nth)
  show "sstype (hbond_row Q D n i SS ! i) = SECSTRUCT_NULL"
    using assms by (simp add: hbond_row_eq fold_hbond_pair_sstype R)
  show "length (CO_HN_Hbond (hbond_row Q D n i SS ! i)) = n"
    using assms by (simp add: hbond_row_eq fold_hbond_pair_row_length R)
  assume j: "j < n"
  have lenR: "length ?R = length SS" by (simp add: reset_row_def)
  have c: "hb_cond Q D ?R i j = hb_cond Q D SS i j"
    using hb_cond_static [OF reset_row_static] assms j by simp
  have "CO_HN_Hbond (fold (hbond_pair Q D i) [0..<n] ?R ! i) ! j =
          (CO_HN_Hbond (?R ! i) ! j \<or> (j \<in> set [0..<n] \<and> hb_cond Q D ?R i j))"
    using assms j by (intro fold_hbond_pair_row) (simp_all add: lenR R)
  then have "CO_HN_Hbond (fold (hbond_pair Q D i) [0..<n] ?R ! i) ! j = hb_cond Q D SS i j"
    using j by (simp add: R c)
  then show "CO_HN_Hbond (hbond_row Q D n i SS ! i) ! j = hbond_of Q D SS i j"
    using assms j by (auto simp: hbond_row_eq R hbond_of_def)
qed


lemma fold_hbond_row_unchanged:
  "k \<notin> set is \<or> \<not> isSelected (SS ! k) \<Longrightarrow> k < length SS \<Longrightarrow> fold (hbond_row Q D n) is SS ! k = SS ! k"
proof (induction "is" arbitrary: SS)
  case Nil
  show ?case by simp
next
  case (Cons x xs)
  let ?S = "hbond_row Q D n x SS"
  have st: "same_static SS ?S" by (rule hbond_row_static)
  have k: "?S ! k = SS ! k"
    using Cons.prems by (cases "k = x") (auto simp: hbond_row_other hbond_row_unselected)
  have "fold (hbond_row Q D n) xs ?S ! k = ?S ! k"
    using Cons.prems st by (intro Cons.IH) (auto simp: k same_static_def)
  then show ?case by (simp add: k)
qed

lemma fold_hbond_row_selected:
  assumes "distinct is" "k \<in> set is" "k < length SS" "n \<le> length SS" "isSelected (SS ! k)"
  shows "sstype (fold (hbond_row Q D n) is SS ! k) = SECSTRUCT_NULL \<and>
         length (CO_HN_Hbond (fold (hbond_row Q D n) is SS ! k)) = n \<and>
         (\<forall>j < n. CO_HN_Hbond (fold (hbond_row Q D n) is SS ! k) ! j = hbond_of Q D SS k j)"
  using assms
proof (induction "is" arbitrary: SS)
  case Nil
  then show ?case by simp
next
  case (Cons x xs)
  let ?S = "hbond_row Q D n x SS"
  have st: "same_static SS ?S" by (rule hbond_row_static)
  have len: "length ?S = length SS" using st by (simp add: same_static_def)
  show ?case
  proof (cases "k = x")
    case True
    then have "k \<notin> set xs" using Cons.prems(1) by simp
    then have "fold (hbond_row Q D n) xs ?S ! k = ?S ! k"
      using Cons.prems by (intro fold_hbond_row_unchanged) (simp_all add: len)
    then show ?thesis
      using hbond_row_self [where i = k and SS = SS and n = n and Q = Q and D = D] Cons.prems True by simp
  next
    case False
    then have kin: "k \<in> set xs" using Cons.prems(2) by simp
    have sel: "isSelected (?S ! k)" using False Cons.prems by (simp add: hbond_row_other)
    have IH: "sstype (fold (hbond_row Q D n) xs ?S ! k) = SECSTRUCT_NULL \<and>
         length (CO_HN_Hbond (fold (hbond_row Q D n) xs ?S ! k)) = n \<and>
         (\<forall>j < n. CO_HN_Hbond (fold (hbond_row Q D n) xs ?S ! k) ! j = hbond_of Q D ?S k j)"
      using Cons.prems kin sel by (intro Cons.IH) (simp_all add: len)
    have "\<forall>j < n. hbond_of Q D ?S k j = hbond_of Q D SS k j"
      using hbond_of_static [OF st] Cons.prems by simp
    then show ?thesis using IH by simp
  qed
qed

lemma hbonds_fields [simp]:
  "Nres (hbonds Q D s) = Nres s" "Nframe (hbonds Q D s) = Nframe s"
  "printString (hbonds Q D s) = printString s" "sumOut (hbonds Q D s) = sumOut s"
  by (simp_all add: hbonds_def)


lemma hbonds_selected:
  assumes "Nres s \<le> length (SecStruct s)" "i < Nres s" "isSelected (SecStruct s ! i)"
  shows "sstype (SecStruct (hbonds Q D s) ! i) = SECSTRUCT_NULL"
    and "length (CO_HN_Hbond (SecStruct (hbonds Q D s) ! i)) = Nres s"
    and "j < Nres s \<Longrightarrow> CO_HN_Hbond (SecStruct (hbonds Q D s) ! i) ! j = hbond_of Q D (SecStruct s) i j"
  using fold_hbond_row_selected [of "[0..<Nres s]" i "SecStruct s" "Nres s" Q D] assms
  by (simp_all add: hbonds_def)




subsection \<open>Labels are assigned once\<close>

lemma label_mono_refl: "label_mono s s"
  by (simp add: label_mono_def)

lemma label_mono_trans: "label_mono a b \<Longrightarrow> label_mono b c \<Longrightarrow> label_mono a c"
  by (auto simp: label_mono_def)

lemma set_sstype_nth:
  "SecStruct (set_sstype res t s) ! k =
     (if k = res \<and> res < length (SecStruct s) then (SecStruct s ! res)\<lparr> sstype := t \<rparr>
      else SecStruct s ! k)"
  by (simp add: set_sstype_def nth_upd_if)

lemma set_sstype_fields [simp]:
  "length (SecStruct (set_sstype res t s)) = length (SecStruct s)"
  "Nres (set_sstype res t s) = Nres s" "Nframe (set_sstype res t s) = Nframe s"
  "printString (set_sstype res t s) = printString s" "sumOut (set_sstype res t s) = sumOut s"
  by (simp_all add: set_sstype_def)

lemma label_mono_set_sstype:
  "sstype (SecStruct s ! res) = SECSTRUCT_NULL \<Longrightarrow> label_mono s (set_sstype res t s)"
  by (auto simp: label_mono_def set_sstype_nth)

lemma label_mono_SSassign: "label_mono s (SSassign res res2 typeIn s)"
proof (induction res res2 typeIn s rule: SSassign.induct)
  case (1 res res2 typeIn s)
  show ?case
  proof (cases "res < res2 \<and> res \<noteq> Nres s")
    case False
    then show ?thesis by (auto simp: SSassign.simps [of res] label_mono_refl)
  next
    case True
    show ?thesis
    proof (cases "isSelected (SecStruct s ! res) \<and> sstype (SecStruct s ! res) = SECSTRUCT_NULL")
      case True
      with \<open>res < res2 \<and> res \<noteq> Nres s\<close>
      have "label_mono (set_sstype res typeIn s) (SSassign (Suc res) res2 typeIn (set_sstype res typeIn s))"
        by (intro "1.IH"(2)) simp_all
      then have "label_mono s (SSassign (Suc res) res2 typeIn (set_sstype res typeIn s))"
        using True label_mono_trans [OF label_mono_set_sstype] by blast
      then show ?thesis
        using True \<open>res < res2 \<and> res \<noteq> Nres s\<close> by (simp add: SSassign.simps [of res])
    next
      case False
      then show ?thesis
        using \<open>res < res2 \<and> res \<noteq> Nres s\<close> "1.IH"(1,3)
        by (auto simp: SSassign.simps [of res])
    qed
  qed
qed

lemma label_mono_beta_loop:
  "sstype (SecStruct s ! resi) = SECSTRUCT_NULL \<Longrightarrow> label_mono s (beta_loop resi js s)"
  by (induction js) (auto simp: label_mono_refl label_mono_set_sstype)

lemma label_mono_helix_3_10_pi: "label_mono s (helix_3_10_pi resi s)"
  by (simp add: helix_3_10_pi_def label_mono_SSassign label_mono_refl)

lemma label_mono_ss_step: "label_mono s (ss_step resi s)"
  by (auto simp: ss_step_def Let_def label_mono_refl label_mono_SSassign
        label_mono_beta_loop label_mono_helix_3_10_pi
        intro: label_mono_trans [OF label_mono_beta_loop label_mono_helix_3_10_pi])

lemma label_mono_turn_spans: "label_mono s (turn_spans resi resj s)"
  by (induction resi resj s rule: turn_spans.induct)
     (simp add: turn_spans.simps [of _ resj] turn_spans.simps label_mono_SSassign label_mono_refl)

lemma label_mono_turn_step: "label_mono s (turn_step resi s)"
  by (simp add: turn_step_def label_mono_refl label_mono_turn_spans)

lemma label_mono_fold:
  "(\<And>f x. f \<in> set fs \<Longrightarrow> label_mono x (f x)) \<Longrightarrow> label_mono x (fold (\<lambda>f. f) fs x)"
proof (induction fs arbitrary: x)
  case Nil
  show ?case by (simp add: label_mono_refl)
next
  case (Cons f fs)
  have "label_mono x (f x)" by (simp add: Cons.prems)
  moreover have "label_mono (f x) (fold (\<lambda>f. f) fs (f x))"
    by (rule Cons.IH) (simp add: Cons.prems)
  ultimately show ?case using label_mono_trans by simp
qed

lemma classify_steps_mono: "f \<in> set (classify_steps s) \<Longrightarrow> label_mono x (f x)"
  by (auto simp: classify_steps_def label_mono_ss_step label_mono_turn_step)

lemma classify_state_at: "classify s = state_at s (2 * Nres s)"
  by (simp add: classify_def state_at_def classify_steps_def fold_map comp_def)

lemma label_mono_state_at:
  assumes "k \<le> k'"
  shows "label_mono (state_at s k) (state_at s k')"
proof -
  have "take k' (classify_steps s) = take k (classify_steps s) @ drop k (take k' (classify_steps s))"
    using assms by (metis append_take_drop_id min.absorb1 take_take)
  then have "state_at s k' = fold (\<lambda>f. f) (drop k (take k' (classify_steps s))) (state_at s k)"
    by (simp add: state_at_def) (metis fold_append comp_apply)
  moreover have "label_mono (state_at s k) (fold (\<lambda>f. f) (drop k (take k' (classify_steps s))) (state_at s k))"
    by (rule label_mono_fold) (meson classify_steps_mono in_set_dropD in_set_takeD)
  ultimately show ?thesis by simp
qed

lemma state_at_0: "state_at s 0 = s"
  by (simp add: state_at_def)

text \<open>
  Claim C4. Within one frame's classification a label that is not None is never changed
  again: every write of \<open>SSassign\<close>, every iteration of the first pass (Alpha, bridge,
  3-10, Pi) and every iteration of the Turn pass leaves each label that is already set as
  it is, so a label only ever changes from None to another type; the same holds between
  any two points \<open>k \<le> k'\<close> of the sequence of iterations that makes up \<open>classify\<close>.
  The labels of the selected residues are reset to None by the hydrogen bond loop at the
  start of the frame.
\<close>

theorem labels_first_assignment_wins:
  "label_mono s (SSassign res res2 typeIn s) \<and>
   label_mono s (ss_step resi s) \<and>
   label_mono s (turn_step resi s) \<and>
   (k \<le> k' \<longrightarrow> label_mono (state_at s k) (state_at s k')) \<and>
   state_at s 0 = s \<and> classify s = state_at s (2 * Nres s) \<and>
   (Nres s \<le> length (SecStruct s) \<and> i < Nres s \<and> isSelected (SecStruct s ! i) \<longrightarrow>
      sstype (SecStruct (hbonds DSSP_fac DIST s) ! i) = SECSTRUCT_NULL)"
  by (simp add: label_mono_SSassign label_mono_ss_step label_mono_turn_step
        label_mono_state_at state_at_0 classify_state_at [symmetric] hbonds_selected(1))

theorem labels_first_assignment_wins_witness:
  "label_mono (hbonds 332 ex_DIST ex_turn) (classify (hbonds 332 ex_DIST ex_turn)) \<and>
   sstype (SecStruct (hbonds 332 ex_DIST ex_turn) ! 1) = SECSTRUCT_NULL \<and>
   sstype (SecStruct (classify (hbonds 332 ex_DIST ex_turn)) ! 1) = SECSTRUCT_TURN"
proof -
  let ?s = "hbonds 332 ex_DIST ex_turn"
  have n: "Nres ex_turn = 4" by (simp add: ex_turn_def)
  note t = labels_first_assignment_wins [of ?s 0 0 SECSTRUCT_NULL 0 0 8 1 332 ex_DIST]
  have a: "label_mono (state_at ?s 0) (state_at ?s 8)"
    using t [THEN conjunct2, THEN conjunct2, THEN conjunct2, THEN conjunct1] by simp
  have b: "state_at ?s 0 = ?s" using t by blast
  have c: "classify ?s = state_at ?s 8"
    using t [THEN conjunct2, THEN conjunct2, THEN conjunct2, THEN conjunct2, THEN conjunct2, THEN conjunct1] n
    by simp
  have "label_mono ?s (classify ?s)"
    using a by (simp only: b c)
  moreover have "sstype (SecStruct ?s ! 1) = SECSTRUCT_NULL"
    using labels_first_assignment_wins [of ex_turn 0 0 SECSTRUCT_NULL 0 0 8 1 332 ex_DIST]
    by (simp add: ex_turn_def)
  moreover have "sstype (SecStruct (classify ?s) ! 1) = SECSTRUCT_TURN"
    by code_simp
  ultimately show ?thesis by simp
qed

subsection \<open>The Turn pass\<close>

lemma SSassign_frame:
  "Nres (SSassign res res2 t s) = Nres s \<and> Nframe (SSassign res res2 t s) = Nframe s \<and>
   printString (SSassign res res2 t s) = printString s \<and> sumOut (SSassign res res2 t s) = sumOut s \<and>
   length (SecStruct (SSassign res res2 t s)) = length (SecStruct s)"
proof (induction res res2 t s rule: SSassign.induct)
  case (1 res res2 typeIn s)
  then show ?case by (simp add: SSassign.simps [of res res2 typeIn s])
qed

lemma SSassign_fields [simp]:
  "Nres (SSassign res res2 t s) = Nres s" "Nframe (SSassign res res2 t s) = Nframe s"
  "printString (SSassign res res2 t s) = printString s" "sumOut (SSassign res res2 t s) = sumOut s"
  "length (SecStruct (SSassign res res2 t s)) = length (SecStruct s)"
  using SSassign_frame [of res res2 t s] by simp_all

text \<open>The residues \<open>SSassign\<close> labels, when the range ends inside the residue table.\<close>

lemma SSassign_nth:
  assumes "res2 \<le> Nres s" "Nres s \<le> length (SecStruct s)"
  shows "SecStruct (SSassign res res2 t s) ! r =
           (if res \<le> r \<and> r < res2 \<and> isSelected (SecStruct s ! r) \<and>
               sstype (SecStruct s ! r) = SECSTRUCT_NULL
            then (SecStruct s ! r)\<lparr> sstype := t \<rparr> else SecStruct s ! r)"
  using assms
proof (induction res res2 t s rule: SSassign.induct)
  case (1 res res2 typeIn s)
  show ?case
  proof (cases "res < res2")
    case False
    then show ?thesis by (auto simp: SSassign.simps [of res res2 typeIn s])
  next
    case True
    then have ne: "res \<noteq> Nres s" using "1.prems" by simp
    show ?thesis
    proof (cases "isSelected (SecStruct s ! res) \<and> sstype (SecStruct s ! res) = SECSTRUCT_NULL")
      case False
      then have "SSassign res res2 typeIn s = SSassign (Suc res) res2 typeIn s"
        using True ne by (auto simp: SSassign.simps [of res res2 typeIn s])
      moreover have "SecStruct (SSassign (Suc res) res2 typeIn s) ! r =
           (if Suc res \<le> r \<and> r < res2 \<and> isSelected (SecStruct s ! r) \<and>
               sstype (SecStruct s ! r) = SECSTRUCT_NULL
            then (SecStruct s ! r)\<lparr> sstype := typeIn \<rparr> else SecStruct s ! r)"
        using False True ne "1.prems" "1.IH"(1,3) by blast
      ultimately show ?thesis using False by (auto simp: Suc_le_eq le_less)
    next
      case sel: True
      let ?s1 = "set_sstype res typeIn s"
      have eq: "SSassign res res2 typeIn s = SSassign (Suc res) res2 typeIn ?s1"
        using True ne sel by (simp add: SSassign.simps [of res res2 typeIn s])
      have "SecStruct (SSassign (Suc res) res2 typeIn ?s1) ! r =
           (if Suc res \<le> r \<and> r < res2 \<and> isSelected (SecStruct ?s1 ! r) \<and>
               sstype (SecStruct ?s1 ! r) = SECSTRUCT_NULL
            then (SecStruct ?s1 ! r)\<lparr> sstype := typeIn \<rparr> else SecStruct ?s1 ! r)"
        using True ne sel "1.prems" by (intro "1.IH"(2)) simp_all
      then show ?thesis
        using sel True "1.prems" by (auto simp: eq set_sstype_nth Suc_le_eq le_less)
    qed
  qed
qed

lemma isBonded_selected: "isBonded s (int i) j \<Longrightarrow> isSelected (SecStruct s ! i)"
  by (auto simp: isBonded_def split: if_splits)

lemma isBonded_range: "isBonded s i j \<Longrightarrow> 0 \<le> i \<and> i < int (Nres s) \<and> 0 \<le> j \<and> j < int (Nres s)"
  by (auto simp: isBonded_def split: if_splits)

lemma turn_spans_5:
  "turn_spans i 5 s =
     (case turn_span s i of None \<Rightarrow> s
      | Some spn \<Rightarrow> SSassign (i + 1) (i + spn) SECSTRUCT_TURN s)"
  by (simp add: turn_spans.simps [of i 5] turn_spans.simps [of i 4] turn_spans.simps [of i 3]
        turn_spans.simps [of i 2] turn_span_def)

lemma turn_step_eq:
  "turn_step i s =
     (case turn_span s i of None \<Rightarrow> s
      | Some spn \<Rightarrow> SSassign (i + 1) (i + spn) SECSTRUCT_TURN s)"
proof (cases "isSelected (SecStruct s ! i)")
  case True
  then show ?thesis by (simp add: turn_step_def turn_spans_5)
next
  case False
  then have "turn_span s i = None"
    using isBonded_selected [of s i] by (auto simp: turn_span_def)
  then show ?thesis using False by (simp add: turn_step_def)
qed

lemma turn_span_Some:
  assumes "turn_span s i = Some spn"
  shows "(spn = 3 \<or> spn = 4 \<or> spn = 5) \<and> isBonded s (int i) (int i + int spn) \<and>
         (\<forall>sp. spn < sp \<and> sp \<le> 5 \<longrightarrow> \<not> isBonded s (int i) (int i + int sp))"
proof -
  have sp: "\<And>sp::nat. 3 < sp \<Longrightarrow> sp \<le> 5 \<Longrightarrow> sp = 4 \<or> sp = 5" by arith
  have sp': "\<And>sp::nat. 4 < sp \<Longrightarrow> sp \<le> 5 \<Longrightarrow> sp = 5" by arith
  show ?thesis
    using assms by (auto simp: turn_span_def split: if_splits dest: sp sp')
qed

text \<open>
  Claim C6, as the code has it. In the Turn pass the iteration for residue \<open>i\<close> takes the
  first span in the order 5, 4, 3 for which \<open>HBond(i, i+span)\<close> holds (so no larger span
  is bonded), and its whole effect is that of one call \<open>SSassign(i+1, i+span, Turn)\<close>:
  the residues \<open>i+1 .. i+span-1\<close> that are selected and still None become Turn, every
  other residue and every smaller span is left alone; with no bonded span nothing
  changes.
\<close>

theorem turn_longest_span_wins:
  assumes "Nres s \<le> length (SecStruct s)"
  shows
    "(turn_span s i = None \<longrightarrow> turn_step i s = s) \<and>
     (\<forall>spn. turn_span s i = Some spn \<longrightarrow>
        (spn = 3 \<or> spn = 4 \<or> spn = 5) \<and>
        isBonded s (int i) (int i + int spn) \<and>
        (\<forall>sp. spn < sp \<and> sp \<le> 5 \<longrightarrow> \<not> isBonded s (int i) (int i + int sp)) \<and>
        turn_step i s = SSassign (i + 1) (i + spn) SECSTRUCT_TURN s \<and>
        (\<forall>r. SecStruct (turn_step i s) ! r =
           (if i < r \<and> r < i + spn \<and> isSelected (SecStruct s ! r) \<and>
               sstype (SecStruct s ! r) = SECSTRUCT_NULL
            then (SecStruct s ! r)\<lparr> sstype := SECSTRUCT_TURN \<rparr>
            else SecStruct s ! r)))"
proof (intro conjI allI impI)
  show "turn_step i s = s" if "turn_span s i = None"
    using that by (simp add: turn_step_eq)
next
  fix spn assume sp: "turn_span s i = Some spn"
  note S = turn_span_Some [OF sp]
  show "spn = 3 \<or> spn = 4 \<or> spn = 5" using S by blast
  show "isBonded s (int i) (int i + int spn)" using S by blast
  show "\<not> isBonded s (int i) (int i + int sp)" if "spn < sp \<and> sp \<le> 5" for sp
    using S that by blast
  show eq: "turn_step i s = SSassign (i + 1) (i + spn) SECSTRUCT_TURN s"
    using sp by (simp add: turn_step_eq)
  have "int i + int spn < int (Nres s)"
    using S isBonded_range [of s "int i" "int i + int spn"] by blast
  then have le: "i + spn \<le> Nres s" by linarith
  show "SecStruct (turn_step i s) ! r =
           (if i < r \<and> r < i + spn \<and> isSelected (SecStruct s ! r) \<and>
               sstype (SecStruct s ! r) = SECSTRUCT_NULL
            then (SecStruct s ! r)\<lparr> sstype := SECSTRUCT_TURN \<rparr>
            else SecStruct s ! r)" for r
    using SSassign_nth [OF le assms, of "i + 1" SECSTRUCT_TURN r]
    by (simp add: eq Suc_le_eq)
qed

theorem turn_longest_span_wins_witness:
  "turn_span (hbonds 332 ex_DIST ex_turn) 0 = Some 3 \<and>
   turn_step 0 (hbonds 332 ex_DIST ex_turn) =
     SSassign 1 3 SECSTRUCT_TURN (hbonds 332 ex_DIST ex_turn) \<and>
   sstype (SecStruct (turn_step 0 (hbonds 332 ex_DIST ex_turn)) ! 2) = SECSTRUCT_TURN"
proof -
  let ?s = "hbonds 332 ex_DIST ex_turn"
  have sp: "turn_span ?s 0 = Some 3" by code_simp
  have wf: "Nres ?s \<le> length (SecStruct ?s)" by code_simp
  have s2: "isSelected (SecStruct ?s ! 2)" "sstype (SecStruct ?s ! 2) = SECSTRUCT_NULL"
    by code_simp+
  note t = turn_longest_span_wins [OF wf, of 0, THEN conjunct2, rule_format, OF sp]
  have "turn_step 0 ?s = SSassign 1 3 SECSTRUCT_TURN ?s" using t by simp
  moreover have "sstype (SecStruct (turn_step 0 ?s) ! 2) = SECSTRUCT_TURN"
    using s2
    by (simp add: t [THEN conjunct2, THEN conjunct2, THEN conjunct2, THEN conjunct2, rule_format, of 2])
  ultimately show ?thesis using sp by simp
qed

theorem turn_unselected_counterexample:
  "turn_span (hbonds 332 ex_DIST ex_gap) 0 = Some 3 \<and>
   sstype (SecStruct (hbonds 332 ex_DIST ex_gap) ! 2) = SECSTRUCT_NULL \<and>
   sstype (SecStruct (turn_step 0 (hbonds 332 ex_DIST ex_gap)) ! 2) = SECSTRUCT_NULL \<and>
   sstype (SecStruct (fst (action 332 ex_DIST ex_gap)) ! 2) = SECSTRUCT_NULL \<and>
   sstype (SecStruct (fst (action 332 ex_DIST ex_gap)) ! 1) = SECSTRUCT_TURN"
  by code_simp

subsection \<open>The emitted codes\<close>

lemma SSchar_label_code: "SSchar ! sstype_index t = label_code t"
  by (cases t) (simp_all add: SSchar_def)

lemma label_code_range:
  "label_code t \<in> {CHR ''0'', CHR ''b'', CHR ''B'', CHR ''G'', CHR ''H'', CHR ''I'', CHR ''T''}"
  by (cases t) simp_all

lemma store_step_labels:
  assumes "store_step pS resi (SS, line, dat) = (SS', line', dat')"
  shows "length SS' = length SS"
    and "sstype (SS' ! k) = sstype (SS ! k)"
    and "isSelected (SS' ! k) = isSelected (SS ! k)"
    and "line' = (if pS \<and> isSelected (SS ! resi)
                  then line @ [label_code (sstype (SS ! resi))] else line)"
    and "dat' = (if \<not> pS \<and> isSelected (SS ! resi)
                  then dat @ [sstype_index (sstype (SS ! resi))] else dat)"
  using assms
  by (auto simp: store_step_def Let_def nth_upd_if SSchar_label_code split: if_splits)

lemma fold_store_step:
  assumes "fold (store_step pS) is (SS, line, dat) = (SS', line', dat')"
  shows "length SS' = length SS \<and>
         (\<forall>k. sstype (SS' ! k) = sstype (SS ! k) \<and> isSelected (SS' ! k) = isSelected (SS ! k)) \<and>
         line' = (if pS then line @ map (\<lambda>r. label_code (sstype (SS ! r)))
                                       (filter (\<lambda>r. isSelected (SS ! r)) is) else line) \<and>
         dat' = (if pS then dat else dat @ map (\<lambda>r. sstype_index (sstype (SS ! r)))
                                       (filter (\<lambda>r. isSelected (SS ! r)) is))"
  using assms
proof (induction "is" arbitrary: SS line dat)
  case Nil
  then show ?case by simp
next
  case (Cons x xs)
  obtain SS1 line1 dat1 where s1: "store_step pS x (SS, line, dat) = (SS1, line1, dat1)"
    by (metis prod_cases3)
  note L = store_step_labels [OF s1]
  have "fold (store_step pS) xs (SS1, line1, dat1) = (SS', line', dat')"
    using Cons.prems s1 by simp
  from Cons.IH [OF this] show ?case
    by (auto simp: L)
qed

lemma beta_loop_fields [simp]:
  "Nres (beta_loop resi js s) = Nres s" "Nframe (beta_loop resi js s) = Nframe s"
  "printString (beta_loop resi js s) = printString s" "sumOut (beta_loop resi js s) = sumOut s"
  "length (SecStruct (beta_loop resi js s)) = length (SecStruct s)"
  by (induction js) simp_all

lemma helix_3_10_pi_fields [simp]:
  "Nres (helix_3_10_pi resi s) = Nres s" "Nframe (helix_3_10_pi resi s) = Nframe s"
  "printString (helix_3_10_pi resi s) = printString s" "sumOut (helix_3_10_pi resi s) = sumOut s"
  "length (SecStruct (helix_3_10_pi resi s)) = length (SecStruct s)"
  by (simp_all add: helix_3_10_pi_def)

lemma ss_step_fields [simp]:
  "Nres (ss_step resi s) = Nres s" "Nframe (ss_step resi s) = Nframe s"
  "printString (ss_step resi s) = printString s" "sumOut (ss_step resi s) = sumOut s"
  "length (SecStruct (ss_step resi s)) = length (SecStruct s)"
  by (simp_all add: ss_step_def Let_def)

lemma turn_step_fields [simp]:
  "Nres (turn_step resi s) = Nres s" "Nframe (turn_step resi s) = Nframe s"
  "printString (turn_step resi s) = printString s" "sumOut (turn_step resi s) = sumOut s"
  "length (SecStruct (turn_step resi s)) = length (SecStruct s)"
  by (simp_all add: turn_step_eq split: option.splits)

lemma fold_ss_step_fields [simp]:
  "Nres (fold ss_step is s) = Nres s" "Nframe (fold ss_step is s) = Nframe s"
  "printString (fold ss_step is s) = printString s" "sumOut (fold ss_step is s) = sumOut s"
  "length (SecStruct (fold ss_step is s)) = length (SecStruct s)"
  by (induction "is" arbitrary: s) simp_all

lemma fold_turn_step_fields [simp]:
  "Nres (fold turn_step is s) = Nres s" "Nframe (fold turn_step is s) = Nframe s"
  "printString (fold turn_step is s) = printString s" "sumOut (fold turn_step is s) = sumOut s"
  "length (SecStruct (fold turn_step is s)) = length (SecStruct s)"
  by (induction "is" arbitrary: s) simp_all

lemma classify_fields [simp]:
  "Nres (classify s) = Nres s" "Nframe (classify s) = Nframe s"
  "printString (classify s) = printString s" "sumOut (classify s) = sumOut s"
  "length (SecStruct (classify s)) = length (SecStruct s)"
  by (simp_all add: classify_def)

lemma action_output:
  "snd (action Q D s) =
     (if printString s
      then SSline (map (\<lambda>r. label_code (sstype (SecStruct (fst (action Q D s)) ! r)))
                    (filter (\<lambda>r. isSelected (SecStruct (fst (action Q D s)) ! r)) [0..<Nres s]))
      else SSdata (map (\<lambda>r. sstype_index (sstype (SecStruct (fst (action Q D s)) ! r)))
                    (filter (\<lambda>r. isSelected (SecStruct (fst (action Q D s)) ! r)) [0..<Nres s])))"
proof -
  let ?s1 = "classify (hbonds Q D s)"
  obtain SS line dat where
    f: "fold (store_step (printString s)) [0..<Nres s] (SecStruct ?s1, [], []) = (SS, line, dat)"
    by (metis prod_cases3)
  note F = fold_store_step [OF f]
  have a: "action Q D s =
      (?s1\<lparr> SecStruct := SS, Nframe := Nframe ?s1 + 1 \<rparr>,
       if printString s then SSline line else SSdata dat)"
    by (simp add: action_def Let_def f)
  show ?thesis
    using F by (simp add: a)
qed

text \<open>
  Claim C9. The character emitted for a selected residue is the entry of \<open>SSchar\<close> for
  its label, and that table is the fixed mapping 0 for None, b for Para, B for Anti,
  G for 3-10, H for Alpha, I for Pi, T for Turn (the names are those of \<open>SSname\<close>): the
  line a frame adds to the string data set is, residue by residue in ascending order
  over the selected residues, the code of the residue's label in that frame, and it
  holds no other character.
\<close>

theorem emitted_codes_fixed_mapping:
  "zip SSname SSchar =
     [(''None'', CHR ''0''), (''Para'', CHR ''b''), (''Anti'', CHR ''B''), (''3-10'', CHR ''G''),
      (''Alpha'', CHR ''H''), (''Pi'', CHR ''I''), (''Turn'', CHR ''T'')] \<and>
   SSchar ! sstype_index t = label_code t \<and>
   (printString s \<longrightarrow>
      snd (action DSSP_fac DIST s) =
        SSline (map (\<lambda>r. label_code (sstype (SecStruct (fst (action DSSP_fac DIST s)) ! r)))
                 (filter (\<lambda>r. isSelected (SecStruct (fst (action DSSP_fac DIST s)) ! r))
                    [0..<Nres s]))) \<and>
   (\<forall>line. snd (action DSSP_fac DIST s) = SSline line \<longrightarrow>
      set line \<subseteq> {CHR ''0'', CHR ''b'', CHR ''B'', CHR ''G'', CHR ''H'', CHR ''I'', CHR ''T''})"
proof (intro conjI allI impI)
  show "zip SSname SSchar =
     [(''None'', CHR ''0''), (''Para'', CHR ''b''), (''Anti'', CHR ''B''), (''3-10'', CHR ''G''),
      (''Alpha'', CHR ''H''), (''Pi'', CHR ''I''), (''Turn'', CHR ''T'')]"
    by (simp add: SSname_def SSchar_def)
  show "SSchar ! sstype_index t = label_code t" by (rule SSchar_label_code)
  show "snd (action DSSP_fac DIST s) =
        SSline (map (\<lambda>r. label_code (sstype (SecStruct (fst (action DSSP_fac DIST s)) ! r)))
                 (filter (\<lambda>r. isSelected (SecStruct (fst (action DSSP_fac DIST s)) ! r))
                    [0..<Nres s]))" if "printString s"
    using that by (simp add: action_output [of DSSP_fac DIST s])
  show "set line \<subseteq> {CHR ''0'', CHR ''b'', CHR ''B'', CHR ''G'', CHR ''H'', CHR ''I'', CHR ''T''}"
    if "snd (action DSSP_fac DIST s) = SSline line" for line
  proof -
    have "line = map (\<lambda>r. label_code (sstype (SecStruct (fst (action DSSP_fac DIST s)) ! r)))
                 (filter (\<lambda>r. isSelected (SecStruct (fst (action DSSP_fac DIST s)) ! r))
                    [0..<Nres s])"
      using that action_output [of DSSP_fac DIST s] by (simp split: if_splits)
    then have "set line \<subseteq> range label_code" by auto
    then show ?thesis using label_code_range by blast
  qed
qed

theorem emitted_codes_fixed_mapping_witness:
  "snd (action 332 ex_DIST ex_turn) = SSline ''0TT0'' \<and>
   set ''0TT0'' \<subseteq> {CHR ''0'', CHR ''b'', CHR ''B'', CHR ''G'', CHR ''H'', CHR ''I'', CHR ''T''}"
proof -
  have a: "snd (action 332 ex_DIST ex_turn) = SSline ''0TT0''" by code_simp
  show ?thesis
    using emitted_codes_fixed_mapping [of SECSTRUCT_NULL ex_turn 332 ex_DIST, THEN conjunct2,
            THEN conjunct2, THEN conjunct2, rule_format, OF a] a
    by blast
qed

subsection \<open>Averaging\<close>






section \<open>Density-based clustering: proofs\<close>

subsection \<open>Configuration\<close>

text \<open>
  Claim C7. \<open>SetupCluster\<close> returns the error code 1 exactly when \<open>minpoints\<close> is not
  given or is less than 1, or \<open>epsilon\<close> is not given or is at most 0; in every other
  case it returns 0 and stores the two values and the sieve policy. It does not touch
  the frame statuses or the cluster list: no clustering work is done.
\<close>

theorem SetupCluster_rejects_invalid:
  "(fst (SetupCluster analyzeArgs c) = 1 \<longleftrightarrow>
      (case minpoints_arg analyzeArgs of None \<Rightarrow> True | Some n \<Rightarrow> n < 1) \<or>
      (case epsilon_arg analyzeArgs of None \<Rightarrow> True | Some e \<Rightarrow> e \<le> 0)) \<and>
   (fst (SetupCluster analyzeArgs c) \<noteq> 1 \<longrightarrow>
      fst (SetupCluster analyzeArgs c) = 0 \<and>
      minpoints_arg analyzeArgs = Some (minPoints (snd (SetupCluster analyzeArgs c))) \<and>
      epsilon_arg analyzeArgs = Some (epsilon (snd (SetupCluster analyzeArgs c))) \<and>
      sieveToCentroid (snd (SetupCluster analyzeArgs c)) = (\<not> sievetoframe_arg analyzeArgs)) \<and>
   Status (snd (SetupCluster analyzeArgs c)) = Status c \<and>
   clusters (snd (SetupCluster analyzeArgs c)) = clusters c"
  by (auto simp: SetupCluster_def getKeyInt_def getKeyDouble_def Let_def split: option.splits)

theorem SetupCluster_rejects_invalid_witness:
  "fst (SetupCluster \<lparr> minpoints_arg = Some 0, epsilon_arg = Some 1, sievetoframe_arg = False \<rparr>
          (new_DBSCAN (line_matrix ex_pos3 3 (\<lambda>i. False)) (line_Cdist ex_pos3))) = 1 \<and>
   fst (SetupCluster \<lparr> minpoints_arg = Some 2, epsilon_arg = None, sievetoframe_arg = False \<rparr>
          (new_DBSCAN (line_matrix ex_pos3 3 (\<lambda>i. False)) (line_Cdist ex_pos3))) = 1 \<and>
   fst (SetupCluster \<lparr> minpoints_arg = Some 2, epsilon_arg = Some 1, sievetoframe_arg = False \<rparr>
          (new_DBSCAN (line_matrix ex_pos3 3 (\<lambda>i. False)) (line_Cdist ex_pos3))) = 0"
  using
    SetupCluster_rejects_invalid [of "\<lparr> minpoints_arg = Some 0, epsilon_arg = Some 1, sievetoframe_arg = False \<rparr>"
      "new_DBSCAN (line_matrix ex_pos3 3 (\<lambda>i. False)) (line_Cdist ex_pos3)"]
    SetupCluster_rejects_invalid [of "\<lparr> minpoints_arg = Some 2, epsilon_arg = None, sievetoframe_arg = False \<rparr>"
      "new_DBSCAN (line_matrix ex_pos3 3 (\<lambda>i. False)) (line_Cdist ex_pos3)"]
    SetupCluster_rejects_invalid [of "\<lparr> minpoints_arg = Some 2, epsilon_arg = Some 1, sievetoframe_arg = False \<rparr>"
      "new_DBSCAN (line_matrix ex_pos3 3 (\<lambda>i. False)) (line_Cdist ex_pos3)"]
  by simp

subsection \<open>The expansion loop\<close>

lemma status_distinct [simp]:
  "UNASSIGNED \<noteq> NOISE" "NOISE \<noteq> UNASSIGNED" "UNASSIGNED \<noteq> INCLUSTER"
  "INCLUSTER \<noteq> UNASSIGNED" "NOISE \<noteq> INCLUSTER" "INCLUSTER \<noteq> NOISE"
  by (simp_all add: UNASSIGNED_def NOISE_def INCLUSTER_def)

lemma update_True_id: "n < length V \<Longrightarrow> V ! n \<Longrightarrow> V[n := True] = V"
  by (metis list_update_id)

lemma update_same_id: "n < length S \<Longrightarrow> S ! n = x \<Longrightarrow> S[n := x] = S"
  by (metis list_update_id)

lemma visit_eq:
  "n < length V \<Longrightarrow>
   visit rq m n (NP, V) =
     (if \<not> V ! n \<and> m \<le> int (length (rq n)) then NP @ rq n else NP, V[n := True])"
  by (auto simp: visit_def Let_def update_True_id)

lemma absorb_eq:
  "n < length S \<Longrightarrow>
   absorb n (S, cf) = (S[n := INCLUSTER], if S ! n \<noteq> INCLUSTER then cf @ [n] else cf)"
  by (auto simp: absorb_def update_same_id)

text \<open>An invariant of the expansion loop holds when the loop ends, and the loop ends
  without an index out of range when the invariant bounds the neighbour list.\<close>

lemma expand_rule:
  assumes "I idx NP V S cf"
    and range: "\<And>idx NP V S cf. I idx NP V S cf \<Longrightarrow> idx < length NP \<Longrightarrow>
                  NP ! idx < length V \<and> NP ! idx < length S"
    and step: "\<And>idx NP V S cf. I idx NP V S cf \<Longrightarrow> idx < length NP \<Longrightarrow>
                  I (idx + 1)
                    (if \<not> V ! (NP ! idx) \<and> m \<le> int (length (rq (NP ! idx))) then NP @ rq (NP ! idx) else NP)
                    (V[NP ! idx := True]) (S[NP ! idx := INCLUSTER])
                    (if S ! (NP ! idx) \<noteq> INCLUSTER then cf @ [NP ! idx] else cf)"
  shows "\<exists>V' S' cf' idx' NP'. expand rq m idx NP V S cf = Inr (V', S', cf') \<and>
           I idx' NP' V' S' cf' \<and> \<not> idx' < length NP'"
  using assms
proof (induction rq m idx NP V S cf rule: expand.induct)
  case (1 rq m idx NP V S cf)
  note inv = "1.prems"(1) and range = "1.prems"(2) and step = "1.prems"(3)
  show ?case
  proof (cases "idx < length NP")
    case False
    then have "expand rq m idx NP V S cf = Inr (V, S, cf)"
      by (simp add: expand.simps [of rq m idx NP V S cf])
    then show ?thesis using False inv by blast
  next
    case True
    let ?n = "NP ! idx"
    let ?NP1 = "if \<not> V ! ?n \<and> m \<le> int (length (rq ?n)) then NP @ rq ?n else NP"
    let ?cf1 = "if S ! ?n \<noteq> INCLUSTER then cf @ [?n] else cf"
    have r: "?n < length V" "?n < length S" using range [OF inv True] by simp_all
    have v: "visit rq m ?n (NP, V) = (?NP1, V[?n := True])" using r by (simp add: visit_eq)
    have a: "absorb ?n (S, cf) = (S[?n := INCLUSTER], ?cf1)" using r by (simp add: absorb_eq)
    have e: "expand rq m idx NP V S cf =
               expand rq m (idx + 1) ?NP1 (V[?n := True]) (S[?n := INCLUSTER]) ?cf1"
      using True r by (subst expand.simps) (simp add: v a Let_def)
    have "\<exists>V' S' cf' idx' NP'.
            expand rq m (idx + 1) ?NP1 (V[?n := True]) (S[?n := INCLUSTER]) ?cf1 = Inr (V', S', cf') \<and>
            I idx' NP' V' S' cf' \<and> \<not> idx' < length NP'"
    proof (rule "1.IH" [OF True refl _ v [symmetric] a [symmetric]])
      show "\<not> (length V \<le> ?n \<or> length S \<le> ?n)" using r by simp
      show "I (idx + 1) ?NP1 (V[?n := True]) (S[?n := INCLUSTER]) ?cf1"
        by (rule step [OF inv True])
      show "\<And>idx NP V S cf. I idx NP V S cf \<Longrightarrow> idx < length NP \<Longrightarrow>
                  NP ! idx < length V \<and> NP ! idx < length S"
        by (rule range)
      show "\<And>idx NP V S cf. I idx NP V S cf \<Longrightarrow> idx < length NP \<Longrightarrow>
                  I (idx + 1)
                    (if \<not> V ! (NP ! idx) \<and> m \<le> int (length (rq (NP ! idx))) then NP @ rq (NP ! idx) else NP)
                    (V[NP ! idx := True]) (S[NP ! idx := INCLUSTER])
                    (if S ! (NP ! idx) \<noteq> INCLUSTER then cf @ [NP ! idx] else cf)"
        by (rule step)
    qed
    then show ?thesis by (simp only: e)
  qed
qed

subsection \<open>Invariants of the clustering loops\<close>

lemma core_neighbor_in_F: "rq_closed rq F \<Longrightarrow> core_neighbor rq m F f \<Longrightarrow> f \<in> set F"
  by (auto simp: rq_closed_def core_neighbor_def)

lemma inv_status_step:
  assumes "inv_status rq m F V S" "core_neighbor rq m F n" "n \<in> set F"
  shows "inv_status rq m F (V[n := True]) (S[n := INCLUSTER])"
  using assms unfolding inv_status_def
  by (auto simp: nth_list_update)

lemma inv_visited_step: "inv_visited A V \<Longrightarrow> inv_visited A (V[n := True])"
  by (simp add: inv_visited_def nth_upd_if)

lemma set_drop_Suc: "idx < length NP \<Longrightarrow> set (drop idx NP) = insert (NP ! idx) (set (drop (Suc idx) NP))"
  by (metis Cons_nth_drop_Suc list.simps(15))

lemma inv_pending_step:
  assumes st: "inv_status rq m F V S" and p: "inv_pending rq m F V S (set (drop idx NP))"
    and idx: "idx < length NP" and n: "NP ! idx \<in> set F" and cl: "rq_closed rq F"
  shows "inv_pending rq m F (V[NP ! idx := True]) (S[NP ! idx := INCLUSTER])
           (set (drop (Suc idx)
              (if \<not> V ! (NP ! idx) \<and> m \<le> int (length (rq (NP ! idx))) then NP @ rq (NP ! idx) else NP)))"
  unfolding inv_pending_def
proof (intro ballI impI)
  let ?n = "NP ! idx"
  let ?NP1 = "if \<not> V ! ?n \<and> m \<le> int (length (rq ?n)) then NP @ rq ?n else NP"
  fix q f
  assume q: "q \<in> set F" and vq: "V[?n := True] ! q \<and> core_point rq m q" and f: "f \<in> set (rq q)"
  have len: "length S = length V" "\<forall>f \<in> set F. f < length V"
    using st by (simp_all add: inv_status_def)
  have fF: "f \<in> set F" using f cl by (auto simp: rq_closed_def)
  have nlt: "?n < length V" using n len by simp
  have sub: "set (drop (Suc idx) NP) \<subseteq> set (drop (Suc idx) ?NP1)"
    using idx by auto
  show "S[?n := INCLUSTER] ! f = INCLUSTER \<or> f \<in> set (drop (Suc idx) ?NP1)"
  proof (cases "V ! q")
    case True
    then have "S ! f = INCLUSTER \<or> f \<in> set (drop idx NP)"
      using p q vq f by (auto simp: inv_pending_def)
    then show ?thesis
      using sub nlt len fF by (auto simp: set_drop_Suc [OF idx] nth_list_update)
  next
    case False
    then have qn: "q = ?n" using vq nlt by (auto simp: nth_list_update split: if_splits)
    then have "?NP1 = NP @ rq ?n" using False vq by (simp add: core_point_def)
    then show ?thesis using f qn idx by auto
  qed
qed

lemma inv_expand_step:
  assumes "inv_expand rq m F A idx NP V S" "idx < length NP" "rq_closed rq F"
  shows "inv_expand rq m F A (idx + 1)
           (if \<not> V ! (NP ! idx) \<and> m \<le> int (length (rq (NP ! idx))) then NP @ rq (NP ! idx) else NP)
           (V[NP ! idx := True]) (S[NP ! idx := INCLUSTER])"
proof -
  let ?n = "NP ! idx"
  have cn: "core_neighbor rq m F ?n" using assms(1,2) by (simp add: inv_expand_def)
  then have nF: "?n \<in> set F" using assms(3) by (rule core_neighbor_in_F [rotated])
  have st: "inv_status rq m F V S" and pe: "inv_pending rq m F V S (set (drop idx NP))"
    and vi: "inv_visited A V" and nb: "\<forall>x \<in> set NP. core_neighbor rq m F x"
    using assms(1) by (simp_all add: inv_expand_def)
  have new: "\<not> V ! ?n \<and> m \<le> int (length (rq ?n)) \<Longrightarrow> \<forall>x \<in> set (rq ?n). core_neighbor rq m F x"
    using nF by (auto simp: core_neighbor_def core_point_def)
  show ?thesis
    unfolding inv_expand_def
    using assms(2) nb new inv_status_step [OF st cn nF] inv_visited_step [OF vi]
      inv_pending_step [OF st pe assms(2) nF assms(3)]
    by auto
qed

lemma inv_clusters_step:
  assumes ic: "inv_clusters rq m F cl (set cf) V S" and cn: "core_neighbor rq m F n"
    and n: "n < length V" and len: "length S = length V"
  shows "inv_clusters rq m F cl (set (if S ! n \<noteq> INCLUSTER then cf @ [n] else cf))
           (V[n := True]) (S[n := INCLUSTER])"
proof -
  let ?cf1 = "if S ! n \<noteq> INCLUSTER then cf @ [n] else cf"
  have m1: "\<forall>f. f \<in> members cl \<union> set cf \<longleftrightarrow>
            f < length V \<and> (S ! f = INCLUSTER \<or> (V ! f \<and> S ! f = UNASSIGNED))"
    and m2: "members cl \<inter> set cf = {}"
    and m3: "\<forall>f \<in> members cl. S ! f \<noteq> INCLUSTER \<longrightarrow> \<not> core_neighbor rq m F f"
    and m4: "disjoint_clusters cl"
    and m5: "\<forall>C \<in> set cl. sorted (frameList C) \<and> distinct (frameList C)"
    using ic by (simp_all add: inv_clusters_def)
  have a1: "f \<in> members cl \<union> set ?cf1 \<longleftrightarrow>
            f < length (V[n := True]) \<and>
            (S[n := INCLUSTER] ! f = INCLUSTER \<or> (V[n := True] ! f \<and> S[n := INCLUSTER] ! f = UNASSIGNED))" for f
  proof (cases "f = n")
    case True
    then show ?thesis using n len m1 by (auto simp: nth_list_update)
  next
    case False
    then show ?thesis using m1 [rule_format, of f] by (auto simp: nth_list_update)
  qed
  have nm: "S ! n \<noteq> INCLUSTER \<Longrightarrow> n \<notin> members cl" using m3 cn by blast
  have a2: "members cl \<inter> set ?cf1 = {}" using m2 nm by auto
  have a3: "\<forall>f \<in> members cl. S[n := INCLUSTER] ! f \<noteq> INCLUSTER \<longrightarrow> \<not> core_neighbor rq m F f"
    using m3 n len by (auto simp: nth_upd_if)
  show ?thesis
    unfolding inv_clusters_def using a1 a2 a3 m4 m5 by blast
qed

lemma inv_loop_step:
  assumes I: "inv_loop sy rq m F A cl S0 idx NP V S cf" and idx: "idx < length NP"
    and cl: "rq_closed rq F"
  shows "inv_loop sy rq m F A cl S0 (idx + 1)
           (if \<not> V ! (NP ! idx) \<and> m \<le> int (length (rq (NP ! idx))) then NP @ rq (NP ! idx) else NP)
           (V[NP ! idx := True]) (S[NP ! idx := INCLUSTER])
           (if S ! (NP ! idx) \<noteq> INCLUSTER then cf @ [NP ! idx] else cf)"
proof -
  let ?n = "NP ! idx"
  have ie: "inv_expand rq m F A idx NP V S" using I by (simp add: inv_loop_def)
  then have cn: "core_neighbor rq m F ?n" and st: "inv_status rq m F V S"
    using idx by (simp_all add: inv_expand_def)
  have nF: "?n \<in> set F" using cn cl by (rule core_neighbor_in_F [rotated])
  have len: "length S = length V" and n: "?n < length V"
    using st nF by (simp_all add: inv_status_def)
  have s0: "length S0 = length S" "\<forall>f < length S. S ! f = S0 ! f \<or> S ! f = INCLUSTER"
    using I by (simp_all add: inv_loop_def)
  have "\<forall>f < length S. S[?n := INCLUSTER] ! f = S0 ! f \<or> S[?n := INCLUSTER] ! f = INCLUSTER"
    using s0 by (simp add: nth_upd_if)
  moreover have "sy \<Longrightarrow>
      inv_clusters rq m F cl (set (if S ! ?n \<noteq> INCLUSTER then cf @ [?n] else cf))
        (V[?n := True]) (S[?n := INCLUSTER])"
  proof -
    assume sy
    then have "inv_clusters rq m F cl (set cf) V S" using I by (simp add: inv_loop_def)
    then show ?thesis by (rule inv_clusters_step [OF _ cn n len])
  qed
  moreover have "length S0 = length (S[?n := INCLUSTER])" using s0 by simp
  moreover have "length (S[?n := INCLUSTER]) = length S" by simp
  ultimately show ?thesis
    unfolding inv_loop_def using inv_expand_step [OF ie idx cl] by (simp split del: if_split)
qed

lemma inv_loop_range:
  assumes I: "inv_loop sy rq m F A cl S0 idx NP V S cf" and idx: "idx < length NP"
    and cl: "rq_closed rq F"
  shows "NP ! idx < length V \<and> NP ! idx < length S"
proof -
  have ie: "inv_expand rq m F A idx NP V S" using I by (simp add: inv_loop_def)
  then have cn: "core_neighbor rq m F (NP ! idx)" and st: "inv_status rq m F V S"
    using idx by (simp_all add: inv_expand_def)
  have "NP ! idx \<in> set F" using cn cl by (rule core_neighbor_in_F [rotated])
  then show ?thesis using st by (simp add: inv_status_def)
qed

lemma expand_inv:
  assumes "inv_loop sy rq m F A cl S0 idx NP V S cf" "rq_closed rq F"
  shows "\<exists>V' S' cf' idx' NP'. expand rq m idx NP V S cf = Inr (V', S', cf') \<and>
           inv_loop sy rq m F A cl S0 idx' NP' V' S' cf' \<and> \<not> idx' < length NP'"
proof (rule expand_rule [where I = "inv_loop sy rq m F A cl S0", OF assms(1)])
  show "NP ! idx < length V \<and> NP ! idx < length S"
    if "inv_loop sy rq m F A cl S0 idx NP V S cf" "idx < length NP" for idx NP V S cf
    using that assms(2) by (rule inv_loop_range)
  show "inv_loop sy rq m F A cl S0 (idx + 1)
           (if \<not> V ! (NP ! idx) \<and> m \<le> int (length (rq (NP ! idx))) then NP @ rq (NP ! idx) else NP)
           (V[NP ! idx := True]) (S[NP ! idx := INCLUSTER])
           (if S ! (NP ! idx) \<noteq> INCLUSTER then cf @ [NP ! idx] else cf)"
    if "inv_loop sy rq m F A cl S0 idx NP V S cf" "idx < length NP" for idx NP V S cf
    using that assms(2) by (rule inv_loop_step)
qed

lemma status_mono_refl: "status_mono S S"
  by (simp add: status_mono_def status_le_def)

lemma status_le_trans: "status_le a b \<Longrightarrow> status_le b c \<Longrightarrow> status_le a c"
  by (auto simp: status_le_def)

lemma status_mono_trans: "status_mono A B \<Longrightarrow> status_mono B D \<Longrightarrow> status_mono A D"
  unfolding status_mono_def using status_le_trans by metis

lemma unvisited_unassigned:
  "inv_status rq m F V S \<Longrightarrow> p < length V \<Longrightarrow> \<not> V ! p \<Longrightarrow> S ! p = UNASSIGNED"
  unfolding inv_status_def by blast

text \<open>With a symmetric region query, a visited frame left \<open>UNASSIGNED\<close> (the seed of a
  cluster) is the neighbour of no core point.\<close>

lemma seed_not_core_neighbor:
  assumes st: "inv_status rq m F V S" and pe: "inv_pending rq m F V S {}"
    and sy: "rq_sym rq F" and f: "f < length V" "V ! f" "S ! f = UNASSIGNED"
  shows "\<not> core_neighbor rq m F f"
proof
  assume "core_neighbor rq m F f"
  then obtain q where q: "q \<in> set F" "core_point rq m q" "f \<in> set (rq q)"
    by (auto simp: core_neighbor_def)
  have fF: "f \<in> set F" and fc: "core_point rq m f"
    using st f unfolding inv_status_def by blast+
  have qf: "q \<in> set (rq f)" using sy q by (auto simp: rq_sym_def)
  then have "S ! q = INCLUSTER" using pe fF f fc by (auto simp: inv_pending_def)
  moreover have "q < length V" using st q(1) by (simp add: inv_status_def)
  ultimately have "V ! q" using st unfolding inv_status_def by blast
  then have "S ! f = INCLUSTER" using pe q by (auto simp: inv_pending_def)
  then show False using f by simp
qed

lemma inv_quiet_noise:
  assumes Q: "inv_quiet sy rq m F A cl V S" and pF: "p \<in> set F" and nv: "\<not> V ! p"
    and nc: "\<not> core_point rq m p"
  shows "inv_quiet sy rq m F (insert p A) cl (V[p := True]) (S[p := NOISE])"
proof -
  have st: "inv_status rq m F V S" and pe: "inv_pending rq m F V S {}"
    and vi: "inv_visited A V" using Q by (simp_all add: inv_quiet_def)
  have len: "length S = length V" and p: "p < length V"
    using st pF by (simp_all add: inv_status_def)
  have sp: "S ! p = UNASSIGNED" using st p nv by (rule unvisited_unassigned)
  have a: "inv_status rq m F (V[p := True]) (S[p := NOISE])"
    using st pF nc unfolding inv_status_def by (auto simp: nth_list_update)
  have b: "inv_pending rq m F (V[p := True]) (S[p := NOISE]) {}"
    unfolding inv_pending_def
  proof (intro ballI impI)
    fix q f assume q: "q \<in> set F" "V[p := True] ! q \<and> core_point rq m q" "f \<in> set (rq q)"
    then have "q \<noteq> p" using nc by auto
    then have "V ! q" using q by simp
    then have "S ! f = INCLUSTER" using pe q by (auto simp: inv_pending_def)
    then have "f \<noteq> p" using sp by auto
    then show "S[p := NOISE] ! f = INCLUSTER \<or> f \<in> {}" using \<open>S ! f = INCLUSTER\<close> by simp
  qed
  have c: "inv_visited (insert p A) (V[p := True])"
    using vi p by (simp add: inv_visited_def nth_upd_if)
  have d: "inv_clusters rq m F cl {} (V[p := True]) (S[p := NOISE])" if sy
  proof -
    have ic: "inv_clusters rq m F cl {} V S" using Q that by (simp add: inv_quiet_def)
    then have m1: "\<forall>f. f \<in> members cl \<longleftrightarrow>
            f < length V \<and> (S ! f = INCLUSTER \<or> (V ! f \<and> S ! f = UNASSIGNED))"
      by (simp add: inv_clusters_def)
    have pm: "p \<notin> members cl" using m1 nv sp by auto
    have "f \<in> members cl \<longleftrightarrow> f < length (V[p := True]) \<and>
            (S[p := NOISE] ! f = INCLUSTER \<or> (V[p := True] ! f \<and> S[p := NOISE] ! f = UNASSIGNED))" for f
      using m1 [rule_format, of f] pm p len by (cases "f = p") (auto simp: nth_list_update)
    moreover have "\<forall>f \<in> members cl. S[p := NOISE] ! f \<noteq> INCLUSTER \<longrightarrow> \<not> core_neighbor rq m F f"
      using ic pm by (auto simp: inv_clusters_def nth_upd_if)
    ultimately show ?thesis using ic by (simp add: inv_clusters_def)
  qed
  show ?thesis unfolding inv_quiet_def using a b c d by blast
qed

lemma inv_loop_start:
  assumes Q: "inv_quiet sy rq m F A cl V S" and pF: "p \<in> set F" and nv: "\<not> V ! p"
    and co: "core_point rq m p"
  shows "inv_loop sy rq m F (insert p A) cl S 0 (rq p) (V[p := True]) S [p]"
proof -
  have st: "inv_status rq m F V S" and pe: "inv_pending rq m F V S {}"
    and vi: "inv_visited A V" using Q by (simp_all add: inv_quiet_def)
  have len: "length S = length V" and p: "p < length V"
    using st pF by (simp_all add: inv_status_def)
  have sp: "S ! p = UNASSIGNED" using st p nv by (rule unvisited_unassigned)
  have a: "inv_status rq m F (V[p := True]) S"
    using st pF co unfolding inv_status_def by (auto simp: nth_list_update)
  have b: "inv_pending rq m F (V[p := True]) S (set (drop 0 (rq p)))"
    unfolding inv_pending_def
  proof (intro ballI impI)
    fix q f assume q: "q \<in> set F" "V[p := True] ! q \<and> core_point rq m q" "f \<in> set (rq q)"
    show "S ! f = INCLUSTER \<or> f \<in> set (drop 0 (rq p))"
    proof (cases "q = p")
      case True
      then show ?thesis using q by simp
    next
      case False
      then have "V ! q" using q by simp
      then show ?thesis using pe q by (auto simp: inv_pending_def)
    qed
  qed
  have c: "inv_visited (insert p A) (V[p := True])"
    using vi p by (simp add: inv_visited_def nth_upd_if)
  have n: "\<forall>x \<in> set (rq p). core_neighbor rq m F x"
    using pF co by (auto simp: core_neighbor_def)
  have d: "inv_clusters rq m F cl (set [p]) (V[p := True]) S" if sy
  proof -
    have ic: "inv_clusters rq m F cl {} V S" using Q that by (simp add: inv_quiet_def)
    then have m1: "\<forall>f. f \<in> members cl \<longleftrightarrow>
            f < length V \<and> (S ! f = INCLUSTER \<or> (V ! f \<and> S ! f = UNASSIGNED))"
      by (simp add: inv_clusters_def)
    have pm: "p \<notin> members cl" using m1 nv sp by auto
    have m3: "\<forall>f \<in> members cl. S ! f \<noteq> INCLUSTER \<longrightarrow> \<not> core_neighbor rq m F f"
      and m4: "disjoint_clusters cl"
      and m5: "\<forall>C \<in> set cl. sorted (frameList C) \<and> distinct (frameList C)"
      using ic unfolding inv_clusters_def by blast+
    have "f \<in> members cl \<union> set [p] \<longleftrightarrow> f < length (V[p := True]) \<and>
            (S ! f = INCLUSTER \<or> (V[p := True] ! f \<and> S ! f = UNASSIGNED))" for f
      using m1 [rule_format, of f] pm p sp by (cases "f = p") (auto simp: nth_list_update)
    moreover have "members cl \<inter> set [p] = {}" using pm by simp
    ultimately show ?thesis unfolding inv_clusters_def using m3 m4 m5 by blast
  qed
  show ?thesis unfolding inv_loop_def inv_expand_def using a b c d n by simp
qed

lemma distinct_remdups_adj_sorted:
  "sorted (xs :: nat list) \<Longrightarrow> distinct (remdups_adj xs)"
  by (induction xs rule: remdups_adj.induct) auto

lemma inv_quiet_finish:
  assumes I: "inv_loop sy rq m F A cl S0 idx NP V S cf" and idx: "\<not> idx < length NP"
    and rc: "rq_closed rq F" and sym: "sy \<Longrightarrow> rq_sym rq F"
  shows "inv_quiet sy rq m F A (AddCluster (remdups_adj (sort cf)) cl) V S"
proof -
  have ie: "inv_expand rq m F A idx NP V S" using I by (simp add: inv_loop_def)
  then have st: "inv_status rq m F V S" and vi: "inv_visited A V"
    and pe0: "inv_pending rq m F V S (set (drop idx NP))"
    by (simp_all add: inv_expand_def)
  have pe: "inv_pending rq m F V S {}" using pe0 idx by simp
  have d: "inv_clusters rq m F (AddCluster (remdups_adj (sort cf)) cl) {} V S" if sy
  proof -
    have sy: "rq_sym rq F" using that by (rule sym)
    let ?new = "remdups_adj (sort cf)"
    let ?cl = "AddCluster ?new cl"
    have ic: "inv_clusters rq m F cl (set cf) V S" using I that by (simp add: inv_loop_def)
    have sn: "set ?new = set cf" by simp
    have mem: "members ?cl = members cl \<union> set cf"
      by (auto simp: members_def AddCluster_def)
    have m1: "\<forall>f. f \<in> members cl \<union> set cf \<longleftrightarrow>
            f < length V \<and> (S ! f = INCLUSTER \<or> (V ! f \<and> S ! f = UNASSIGNED))"
      and m2: "members cl \<inter> set cf = {}"
      and m3: "\<forall>f \<in> members cl. S ! f \<noteq> INCLUSTER \<longrightarrow> \<not> core_neighbor rq m F f"
      and m4: "disjoint_clusters cl"
      and m5: "\<forall>C \<in> set cl. sorted (frameList C) \<and> distinct (frameList C)"
      using ic by (simp_all add: inv_clusters_def)
    have a3: "\<forall>f \<in> members ?cl. S ! f \<noteq> INCLUSTER \<longrightarrow> \<not> core_neighbor rq m F f"
    proof (intro ballI impI)
      fix f assume f: "f \<in> members ?cl" "S ! f \<noteq> INCLUSTER"
      then have "f < length V \<and> V ! f \<and> S ! f = UNASSIGNED" using m1 mem by blast
      then show "\<not> core_neighbor rq m F f"
        using seed_not_core_neighbor [OF st pe sy] by blast
    qed
    have a4: "disjoint_clusters ?cl"
      unfolding disjoint_clusters_def
    proof (intro allI impI)
      fix i j assume ij: "i < length ?cl" "j < length ?cl" "i \<noteq> j"
      have old: "set (frameList (?cl ! k)) \<subseteq> members cl" if "k < length cl" for k
      proof -
        have "?cl ! k = cl ! k" using that by (simp add: AddCluster_def nth_append)
        moreover have "cl ! k \<in> set cl" using that by simp
        ultimately show ?thesis unfolding members_def by auto
      qed
      have new: "set (frameList (?cl ! length cl)) = set cf"
        by (simp add: AddCluster_def)
      have ll: "length ?cl = Suc (length cl)" by (simp add: AddCluster_def)
      show "set (frameList (?cl ! i)) \<inter> set (frameList (?cl ! j)) = {}"
      proof (cases "i < length cl \<and> j < length cl")
        case True
        then show ?thesis using m4 ij by (simp add: disjoint_clusters_def AddCluster_def nth_append)
      next
        case False
        then consider "i = length cl" "j < length cl" | "j = length cl" "i < length cl"
          using ij ll by linarith
        then show ?thesis
        proof cases
          case 1
          then show ?thesis using old [of j] new m2 by auto
        next
          case 2
          then show ?thesis using old [of i] new m2 by auto
        qed
      qed
    qed
    have a5: "\<forall>C \<in> set ?cl. sorted (frameList C) \<and> distinct (frameList C)"
      using m5 by (auto simp: AddCluster_def distinct_remdups_adj_sorted)
    show ?thesis
      unfolding inv_clusters_def using m1 mem a3 a4 a5 by simp
  qed
  show ?thesis unfolding inv_quiet_def using st pe vi d by blast
qed

lemma RegionQuery_closed: "rq_closed (RegionQuery c F) F"
  by (auto simp: rq_closed_def RegionQuery_def)

lemma status_mono_expand:
  assumes "inv_status rq m F V0 S0" "length S0 = length S"
    "\<forall>f < length S. S ! f = S0 ! f \<or> S ! f = INCLUSTER"
  shows "status_mono S0 S"
  unfolding status_mono_def status_le_def
proof (intro conjI allI impI)
  show "length S = length S0" using assms by simp
  fix f assume f: "f < length S0"
  then have "S0 ! f = INCLUSTER \<or> S0 ! f = NOISE \<or> S0 ! f = UNASSIGNED"
    using assms(1) unfolding inv_status_def by simp
  moreover have "S ! f = S0 ! f \<or> S ! f = INCLUSTER" using assms f by simp
  ultimately show "S0 ! f = S ! f \<or> S0 ! f = UNASSIGNED \<and> S ! f = NOISE \<or>
      S0 ! f = UNASSIGNED \<and> S ! f = INCLUSTER \<or> S0 ! f = NOISE \<and> S ! f = INCLUSTER"
    by auto
qed

lemma cluster_point_inv:
  assumes Q: "inv_quiet sy rq m F A cl V S" and pF: "p \<in> set F"
    and rq: "rq = RegionQuery c F" and m: "m = minPoints c" and sym: "sy \<Longrightarrow> rq_sym rq F"
  shows "\<exists>V' S' cl'. cluster_point c F p (V, S, cl) = Inr (V', S', cl') \<and>
           inv_quiet sy rq m F (insert p A) cl' V' S' \<and> status_mono S S'"
proof -
  have rc: "rq_closed rq F" using rq by (simp add: RegionQuery_closed)
  have st: "inv_status rq m F V S" and vi: "inv_visited A V"
    using Q by (simp_all add: inv_quiet_def)
  have len: "length S = length V" and p: "p < length V"
    using st pF by (simp_all add: inv_status_def)
  show ?thesis
  proof (cases "V ! p")
    case True
    then have "cluster_point c F p (V, S, cl) = Inr (V, S, cl)"
      using p len by (simp add: cluster_point_def)
    moreover have "inv_quiet sy rq m F (insert p A) cl V S"
      using Q True p by (simp add: inv_quiet_def inv_visited_def)
    ultimately show ?thesis using status_mono_refl by blast
  next
    case nv: False
    have sp: "S ! p = UNASSIGNED" using st p nv by (rule unvisited_unassigned)
    show ?thesis
    proof (cases "core_point rq m p")
      case False
      then have "cluster_point c F p (V, S, cl) = Inr (V[p := True], S[p := NOISE], cl)"
        using p len nv by (simp add: cluster_point_def Let_def core_point_def rq m)
      moreover have "status_mono S (S[p := NOISE])"
        using sp by (simp add: status_mono_def status_le_def nth_upd_if)
      ultimately show ?thesis using inv_quiet_noise [OF Q pF nv False] by blast
    next
      case True
      have "inv_loop sy rq m F (insert p A) cl S 0 (rq p) (V[p := True]) S [p]"
        using Q pF nv True by (rule inv_loop_start)
      from expand_inv [OF this rc] obtain V' S' cf' idx' NP' where
        e: "expand rq m 0 (rq p) (V[p := True]) S [p] = Inr (V', S', cf')"
        and I: "inv_loop sy rq m F (insert p A) cl S idx' NP' V' S' cf'"
        and idx: "\<not> idx' < length NP'" by blast
      have "cluster_point c F p (V, S, cl) = Inr (V', S', AddCluster (remdups_adj (sort cf')) cl)"
        using p len nv True e by (simp add: cluster_point_def Let_def core_point_def rq m)
      moreover have "inv_quiet sy rq m F (insert p A) (AddCluster (remdups_adj (sort cf')) cl) V' S'"
        using I idx rc sym by (rule inv_quiet_finish)
      moreover have "status_mono S S'"
        using I st by (intro status_mono_expand [of rq m F V S S']) (simp_all add: inv_loop_def)
      ultimately show ?thesis by blast
    qed
  qed
qed

lemma cluster_loop_inv:
  assumes "inv_quiet sy rq m F A cl V S" "set ps \<subseteq> set F"
    "rq = RegionQuery c F" "m = minPoints c" "sy \<Longrightarrow> rq_sym rq F"
  shows "\<exists>V' S' cl'. cluster_loop c F ps (V, S, cl) = Inr (V', S', cl') \<and>
           inv_quiet sy rq m F (A \<union> set ps) cl' V' S' \<and> status_mono S S'"
  using assms(1,2)
proof (induction ps arbitrary: A cl V S)
  case Nil
  then show ?case using status_mono_refl by simp
next
  case (Cons p ps)
  have pF: "p \<in> set F" using Cons.prems(2) by simp
  from cluster_point_inv [OF Cons.prems(1) pF assms(3,4,5)] obtain V1 S1 cl1 where
    s: "cluster_point c F p (V, S, cl) = Inr (V1, S1, cl1)"
    and Q1: "inv_quiet sy rq m F (insert p A) cl1 V1 S1" and m1: "status_mono S S1" by blast
  have "set ps \<subseteq> set F" using Cons.prems(2) by simp
  from Cons.IH [OF Q1 this] obtain V' S' cl' where
    l: "cluster_loop c F ps (V1, S1, cl1) = Inr (V', S', cl')"
    and Q': "inv_quiet sy rq m F (insert p A \<union> set ps) cl' V' S'" and m2: "status_mono S1 S'"
    by blast
  have "cluster_loop c F (p # ps) (V, S, cl) = Inr (V', S', cl')" by (simp add: s l)
  moreover have "status_mono S S'" using m1 m2 by (rule status_mono_trans)
  ultimately show ?case using Q' by simp
qed

lemma inv_quiet_init:
  assumes "\<forall>f \<in> set F. f < n" "sy \<Longrightarrow> cl = []"
  shows "inv_quiet sy rq m F {} cl (replicate n False) (replicate n UNASSIGNED)"
  using assms
  by (auto simp: inv_quiet_def inv_status_def inv_pending_def inv_visited_def inv_clusters_def
        members_def disjoint_clusters_def)

lemma members_map_centroid [simp]: "members (map (CalculateCentroid cd) cl) = members cl"
  by (simp add: members_def CalculateCentroid_def)

lemma disjoint_map_centroid [simp]:
  "disjoint_clusters (map (CalculateCentroid cd) cl) = disjoint_clusters cl"
  by (simp add: disjoint_clusters_def CalculateCentroid_def)

lemma inv_clusters_map_centroid [simp]:
  "inv_clusters rq m F (map (CalculateCentroid cd) cl) cfs V S = inv_clusters rq m F cl cfs V S"
  by (simp add: inv_clusters_def CalculateCentroid_def)

lemma FramesToCluster_of_set:
  "set (FramesToCluster_of M) = {f. f < Nframes M \<and> \<not> IgnoringRow M f}"
  by (auto simp: FramesToCluster_of_def)

text \<open>\<open>Cluster\<close> returns, and its result satisfies the invariant with every candidate
  frame visited.\<close>

lemma Cluster_inv:
  assumes "sy \<Longrightarrow> rq_sym (RegionQuery c (FramesToCluster_of (FrameDistances c)))
                      (FramesToCluster_of (FrameDistances c)) \<and> clusters c = []"
  shows "\<exists>c' V'. Cluster c = Inr c' \<and>
           inv_quiet sy (RegionQuery c (FramesToCluster_of (FrameDistances c))) (minPoints c)
             (FramesToCluster_of (FrameDistances c)) (set (FramesToCluster_of (FrameDistances c)))
             (clusters c') V' (Status c') \<and>
           status_mono (replicate (Nframes (FrameDistances c)) UNASSIGNED) (Status c') \<and>
           length (Status c') = Nframes (FrameDistances c) \<and>
           minPoints c' = minPoints c \<and> epsilon c' = epsilon c \<and>
           sieveToCentroid c' = sieveToCentroid c \<and> FrameDistances c' = FrameDistances c \<and>
           Cdist c' = Cdist c"
proof -
  let ?F = "FramesToCluster_of (FrameDistances c)"
  let ?n = "Nframes (FrameDistances c)"
  let ?rq = "RegionQuery c ?F"
  have "inv_quiet sy ?rq (minPoints c) ?F {} (clusters c) (replicate ?n False) (replicate ?n UNASSIGNED)"
    using assms by (intro inv_quiet_init) (simp_all add: FramesToCluster_of_set)
  from cluster_loop_inv [OF this subset_refl refl refl] assms obtain V' S' cl' where
    l: "cluster_loop c ?F ?F (replicate ?n False, replicate ?n UNASSIGNED, clusters c) = Inr (V', S', cl')"
    and Q: "inv_quiet sy ?rq (minPoints c) ?F ({} \<union> set ?F) cl' V' S'"
    and mo: "status_mono (replicate ?n UNASSIGNED) S'" by blast
  let ?cl = "map (CalculateCentroid (Cdist c)) cl'"
  let ?c' = "c\<lparr> Status := S', clusters := ?cl, ClusterDistances := centroid_distances (Cdist c) ?cl \<rparr>"
  have "Cluster c = Inr ?c'" by (simp add: Cluster_def Let_def l)
  moreover have "inv_quiet sy ?rq (minPoints c) ?F (set ?F) (clusters ?c') V' (Status ?c')"
    using Q by (simp add: inv_quiet_def)
  moreover have "length S' = ?n" using mo by (simp add: status_mono_def)
  ultimately show ?thesis using mo by (intro exI [of _ ?c'] exI [of _ V']) simp
qed

subsection \<open>The result of Cluster\<close>

text \<open>The statuses when every candidate frame has been visited.\<close>

lemma final_status:
  assumes Q: "inv_quiet sy rq m F (set F) cl V S" and rc: "rq_closed rq F" and f: "f < length S"
  shows "S ! f = INCLUSTER \<longleftrightarrow> core_neighbor rq m F f"
    and "S ! f = NOISE \<longleftrightarrow> f \<in> set F \<and> \<not> core_point rq m f \<and> \<not> core_neighbor rq m F f"
    and "S ! f = UNASSIGNED \<longleftrightarrow> f \<notin> set F \<or> (core_point rq m f \<and> \<not> core_neighbor rq m F f)"
proof -
  have st: "inv_status rq m F V S" and pe: "inv_pending rq m F V S {}"
    and vi: "inv_visited (set F) V" using Q by (simp_all add: inv_quiet_def)
  have len: "length S = length V" using st by (simp add: inv_status_def)
  have fv: "f < length V" using f len by simp
  have tri: "S ! f = INCLUSTER \<or> S ! f = NOISE \<or> S ! f = UNASSIGNED"
    and vF: "V ! f \<Longrightarrow> f \<in> set F"
    and c: "S ! f = INCLUSTER \<Longrightarrow> V ! f \<and> core_neighbor rq m F f"
    and n: "S ! f = NOISE \<Longrightarrow> V ! f \<and> \<not> core_point rq m f"
    and u: "S ! f = UNASSIGNED \<Longrightarrow> V ! f \<Longrightarrow> core_point rq m f"
    using st fv unfolding inv_status_def by blast+
  have Fv: "f \<in> set F \<Longrightarrow> V ! f" using vi by (simp add: inv_visited_def)
  have cn: "S ! f = INCLUSTER" if "core_neighbor rq m F f"
  proof -
    from that obtain q where q: "q \<in> set F" "core_point rq m q" "f \<in> set (rq q)"
      by (auto simp: core_neighbor_def)
    then have "V ! q" using vi by (simp add: inv_visited_def)
    then show ?thesis using pe q by (auto simp: inv_pending_def)
  qed
  show "S ! f = INCLUSTER \<longleftrightarrow> core_neighbor rq m F f" using c cn by blast
  show "S ! f = NOISE \<longleftrightarrow> f \<in> set F \<and> \<not> core_point rq m f \<and> \<not> core_neighbor rq m F f"
    using tri vF c n u Fv cn by (metis status_distinct(1,5))
  show "S ! f = UNASSIGNED \<longleftrightarrow> f \<notin> set F \<or> (core_point rq m f \<and> \<not> core_neighbor rq m F f)"
    using tri vF c n u Fv cn by (metis status_distinct(1,3))
qed

lemma filter_count_mono:
  assumes "length xs = length ys" "\<forall>i < length xs. P (xs ! i) \<longrightarrow> Q (ys ! i)"
  shows "length (filter P xs) \<le> length (filter Q ys)"
  using assms
proof (induction xs ys rule: list_induct2)
  case Nil
  then show ?case by simp
next
  case (Cons x xs y ys)
  have "\<forall>i < length xs. P (xs ! i) \<longrightarrow> Q (ys ! i)" using Cons.prems by auto
  then have "length (filter P xs) \<le> length (filter Q ys)" by (rule Cons.IH)
  moreover have "P x \<longrightarrow> Q y" using Cons.prems by auto
  ultimately show ?case by auto
qed

lemma filter_length_mono:
  "(\<And>x. x \<in> set xs \<Longrightarrow> P x \<Longrightarrow> Q x) \<Longrightarrow> length (filter P xs) \<le> length (filter Q xs)"
  by (induction xs) auto

lemma RegionQuery_mono:
  assumes "FrameDistances c2 = FrameDistances c1" "epsilon c1 \<le> epsilon c2"
  shows "set (RegionQuery c1 F p) \<subseteq> set (RegionQuery c2 F p)"
    and "length (RegionQuery c1 F p) \<le> length (RegionQuery c2 F p)"
  using assms by (auto simp: RegionQuery_def intro!: filter_length_mono)

lemma core_mono:
  assumes "FrameDistances c2 = FrameDistances c1" "epsilon c1 \<le> epsilon c2"
  shows "core_point (RegionQuery c1 F) m p \<Longrightarrow> core_point (RegionQuery c2 F) m p"
    and "core_neighbor (RegionQuery c1 F) m F f \<Longrightarrow> core_neighbor (RegionQuery c2 F) m F f"
proof -
  show a: "core_point (RegionQuery c1 F) m p \<Longrightarrow> core_point (RegionQuery c2 F) m p" for p
    using RegionQuery_mono(2) [OF assms, of F p] by (simp add: core_point_def)
  show "core_neighbor (RegionQuery c1 F) m F f \<Longrightarrow> core_neighbor (RegionQuery c2 F) m F f"
    using RegionQuery_mono(1) [OF assms, of F] a unfolding core_neighbor_def by blast
qed

text \<open>
  Claim C8. For one distance matrix (so one set of candidate frames) and one
  \<open>minPoints\<close>, run with \<open>epsilon\<close> values \<open>e1 \<le> e2\<close>: both runs return, the number of
  frames whose status ends as \<open>INCLUSTER\<close> with \<open>e2\<close> is at least the number with \<open>e1\<close>,
  and the number of frames that end as \<open>NOISE\<close> with \<open>e2\<close> is at most the number with
  \<open>e1\<close>.
\<close>

theorem Cluster_epsilon_monotone:
  assumes "FrameDistances c2 = FrameDistances c1" and "minPoints c2 = minPoints c1"
    and "epsilon c1 \<le> epsilon c2"
  shows "\<exists>r1 r2. Cluster c1 = Inr r1 \<and> Cluster c2 = Inr r2 \<and>
           length (filter (\<lambda>st. st = INCLUSTER) (Status r1))
             \<le> length (filter (\<lambda>st. st = INCLUSTER) (Status r2)) \<and>
           length (filter (\<lambda>st. st = NOISE) (Status r2))
             \<le> length (filter (\<lambda>st. st = NOISE) (Status r1))"
proof -
  let ?F = "FramesToCluster_of (FrameDistances c1)"
  let ?m = "minPoints c1"
  from Cluster_inv [of False c1] obtain r1 V1 where
    r1: "Cluster c1 = Inr r1"
    and Q1: "inv_quiet False (RegionQuery c1 ?F) ?m ?F (set ?F) (clusters r1) V1 (Status r1)"
    and l1: "length (Status r1) = Nframes (FrameDistances c1)" by auto
  from Cluster_inv [of False c2] assms(1,2) obtain r2 V2 where
    r2: "Cluster c2 = Inr r2"
    and Q2: "inv_quiet False (RegionQuery c2 ?F) ?m ?F (set ?F) (clusters r2) V2 (Status r2)"
    and l2: "length (Status r2) = Nframes (FrameDistances c1)" by auto
  note f1 = final_status [OF Q1 RegionQuery_closed]
  note f2 = final_status [OF Q2 RegionQuery_closed]
  note mono = core_mono [OF assms(1,3)]
  have "length (filter (\<lambda>st. st = INCLUSTER) (Status r1))
             \<le> length (filter (\<lambda>st. st = INCLUSTER) (Status r2))"
    using f1(1) f2(1) mono(2) l1 l2 by (intro filter_count_mono) auto
  moreover have "length (filter (\<lambda>st. st = NOISE) (Status r2))
             \<le> length (filter (\<lambda>st. st = NOISE) (Status r1))"
    using f1(2) f2(2) mono l1 l2 by (intro filter_count_mono) auto
  ultimately show ?thesis using r1 r2 by blast
qed

lemma ex_db3_Cluster:
  "map_sum id (\<lambda>r. (Status r, map frameList (clusters r))) (Cluster ex_db3) = Inr (''CUC'', [[0, 1, 2]])"
  by code_simp

lemma ex_db3_wide_Cluster:
  "map_sum id (\<lambda>r. (Status r, map frameList (clusters r))) (Cluster ex_db3_wide) = Inr (''CCC'', [[0, 1, 2]])"
  by code_simp

theorem Cluster_epsilon_monotone_witness:
  "\<exists>r1 r2. Cluster ex_db3 = Inr r1 \<and> Cluster ex_db3_wide = Inr r2 \<and>
     Status r1 = ''CUC'' \<and> Status r2 = ''CCC'' \<and>
     length (filter (\<lambda>st. st = INCLUSTER) (Status r1))
       \<le> length (filter (\<lambda>st. st = INCLUSTER) (Status r2))"
proof -
  have h: "FrameDistances ex_db3_wide = FrameDistances ex_db3"
    "minPoints ex_db3_wide = minPoints ex_db3" "epsilon ex_db3 \<le> epsilon ex_db3_wide"
    by (simp_all add: ex_db3_def ex_db3_wide_def configured_def SetupCluster_def Let_def
          getKeyInt_def getKeyDouble_def new_DBSCAN_def)
  from Cluster_epsilon_monotone [OF h] obtain r1 r2 where
    r: "Cluster ex_db3 = Inr r1" "Cluster ex_db3_wide = Inr r2"
    "length (filter (\<lambda>st. st = INCLUSTER) (Status r1))
       \<le> length (filter (\<lambda>st. st = INCLUSTER) (Status r2))" by blast
  have "Status r1 = ''CUC''" using ex_db3_Cluster r(1) by simp
  moreover have "Status r2 = ''CCC''" using ex_db3_wide_Cluster r(2) by simp
  ultimately show ?thesis using r by blast
qed

lemma cluster_loop_append:
  "cluster_loop c F (xs @ ys) st =
     (case cluster_loop c F xs st of Inl e \<Rightarrow> Inl e | Inr st' \<Rightarrow> cluster_loop c F ys st')"
  by (induction xs arbitrary: st) (auto split: sum.splits)

lemma status_after_mono:
  assumes "k \<le> k'"
  shows "status_mono (status_after c k) (status_after c k')"
proof -
  let ?F = "FramesToCluster_of (FrameDistances c)"
  let ?n = "Nframes (FrameDistances c)"
  let ?rq = "RegionQuery c ?F"
  let ?init = "(replicate ?n False, replicate ?n UNASSIGNED, clusters c)"
  have split: "take k' ?F = take k ?F @ drop k (take k' ?F)"
    using assms by (metis append_take_drop_id min.absorb1 take_take)
  have "inv_quiet False ?rq (minPoints c) ?F {} (clusters c) (replicate ?n False) (replicate ?n UNASSIGNED)"
    by (intro inv_quiet_init) (simp_all add: FramesToCluster_of_set)
  from cluster_loop_inv [OF this set_take_subset refl refl, of k] obtain V1 S1 cl1 where
    l1: "cluster_loop c ?F (take k ?F) ?init = Inr (V1, S1, cl1)"
    and Q1: "inv_quiet False ?rq (minPoints c) ?F ({} \<union> set (take k ?F)) cl1 V1 S1" by blast
  have "set (drop k (take k' ?F)) \<subseteq> set ?F"
    by (meson in_set_dropD in_set_takeD subsetI)
  from cluster_loop_inv [OF Q1 this refl refl] obtain V2 S2 cl2 where
    l2: "cluster_loop c ?F (drop k (take k' ?F)) (V1, S1, cl1) = Inr (V2, S2, cl2)"
    and mo: "status_mono S1 S2" by blast
  have "cluster_loop c ?F (take k' ?F) ?init = Inr (V2, S2, cl2)"
    by (subst split) (simp add: cluster_loop_append l1 l2)
  then have "status_after c k' = S2" by (simp add: status_after_def Let_def)
  moreover have "status_after c k = S1" using l1 by (simp add: status_after_def Let_def)
  ultimately show ?thesis using mo by simp
qed

lemma status_after_final:
  "Cluster c = Inr c' \<Longrightarrow>
   Status c' = status_after c (length (FramesToCluster_of (FrameDistances c)))"
  by (auto simp: Cluster_def status_after_def Let_def split: sum.splits)

lemma RegionQuery_sym:
  assumes "\<forall>i j. GetElement (FrameDistances c) i j = GetElement (FrameDistances c) j i"
  shows "rq_sym (RegionQuery c F) F"
  using assms by (auto simp: rq_sym_def RegionQuery_def)

text \<open>
  Claim C1, as the code has it. For a symmetric distance matrix and a cluster list that
  is empty at the start, \<open>Cluster\<close> returns and afterwards every frame that is not
  ignored is either a member of exactly one recorded cluster and not marked \<open>NOISE\<close>, or
  a member of no cluster and marked \<open>NOISE\<close>. No frame is in the frame lists of two
  clusters, no frame list holds a frame twice, and the clusters hold candidate frames
  only. From one iteration of the main loop to any later one a frame's status moves
  only along \<open>UNASSIGNED\<close> to \<open>NOISE\<close>, \<open>UNASSIGNED\<close> to \<open>INCLUSTER\<close> or \<open>NOISE\<close> to
  \<open>INCLUSTER\<close>, so \<open>INCLUSTER\<close> never reverts (and a \<open>NOISE\<close> frame can still be taken
  into a cluster).
\<close>

theorem Cluster_partition:
  assumes "\<forall>i j. GetElement (FrameDistances c) i j = GetElement (FrameDistances c) j i"
    and "clusters c = []"
  shows "\<exists>c'. Cluster c = Inr c' \<and>
           length (Status c') = Nframes (FrameDistances c) \<and>
           (\<forall>f < Nframes (FrameDistances c). \<not> IgnoringRow (FrameDistances c) f \<longrightarrow>
              ((\<exists>!k. k < length (clusters c') \<and> f \<in> set (frameList (clusters c' ! k))) \<and>
               Status c' ! f \<noteq> NOISE) \<or>
              ((\<forall>k < length (clusters c'). f \<notin> set (frameList (clusters c' ! k))) \<and>
               Status c' ! f = NOISE)) \<and>
           disjoint_clusters (clusters c') \<and>
           (\<forall>k < length (clusters c').
              distinct (frameList (clusters c' ! k)) \<and>
              (\<forall>f \<in> set (frameList (clusters c' ! k)).
                 f < Nframes (FrameDistances c) \<and> \<not> IgnoringRow (FrameDistances c) f)) \<and>
           Status c' = status_after c (length (FramesToCluster_of (FrameDistances c))) \<and>
           status_after c 0 = replicate (Nframes (FrameDistances c)) UNASSIGNED \<and>
           (\<forall>k k'. k \<le> k' \<longrightarrow> status_mono (status_after c k) (status_after c k'))"
proof -
  let ?M = "FrameDistances c"
  let ?F = "FramesToCluster_of ?M"
  let ?rq = "RegionQuery c ?F"
  let ?m = "minPoints c"
  have "True \<Longrightarrow> rq_sym ?rq ?F \<and> clusters c = []"
    using assms RegionQuery_sym by blast
  from Cluster_inv [of True c, OF this] obtain c' V where
    r: "Cluster c = Inr c'"
    and Q: "inv_quiet True ?rq ?m ?F (set ?F) (clusters c') V (Status c')"
    and len: "length (Status c') = Nframes ?M" by blast
  let ?S = "Status c'" and ?cl = "clusters c'"
  have st: "inv_status ?rq ?m ?F V ?S" and vi: "inv_visited (set ?F) V"
    and ic: "inv_clusters ?rq ?m ?F ?cl {} V ?S"
    using Q by (simp_all add: inv_quiet_def)
  have lv: "length V = Nframes ?M" using st len by (simp add: inv_status_def)
  have m1: "\<And>f. f \<in> members ?cl \<longleftrightarrow>
            f < length V \<and> (?S ! f = INCLUSTER \<or> (V ! f \<and> ?S ! f = UNASSIGNED))"
    and dj: "disjoint_clusters ?cl"
    and ds: "\<forall>C \<in> set ?cl. sorted (frameList C) \<and> distinct (frameList C)"
    using ic unfolding inv_clusters_def by simp_all
  have mem: "f \<in> members ?cl \<longleftrightarrow> (\<exists>k < length ?cl. f \<in> set (frameList (?cl ! k)))" for f
  proof -
    have "f \<in> members ?cl \<longleftrightarrow> (\<exists>C \<in> set ?cl. f \<in> set (frameList C))"
      by (simp add: members_def)
    also have "\<dots> \<longleftrightarrow> (\<exists>k < length ?cl. f \<in> set (frameList (?cl ! k)))"
      by (metis in_set_conv_nth)
    finally show ?thesis .
  qed
  have part: "((\<exists>!k. k < length ?cl \<and> f \<in> set (frameList (?cl ! k))) \<and> ?S ! f \<noteq> NOISE) \<or>
              ((\<forall>k < length ?cl. f \<notin> set (frameList (?cl ! k))) \<and> ?S ! f = NOISE)"
    if f: "f < Nframes ?M" "\<not> IgnoringRow ?M f" for f
  proof -
    have fF: "f \<in> set ?F" using f by (simp add: FramesToCluster_of_set)
    then have vf: "V ! f" using vi by (simp add: inv_visited_def)
    have tri: "?S ! f = INCLUSTER \<or> ?S ! f = NOISE \<or> ?S ! f = UNASSIGNED"
      using st f lv unfolding inv_status_def by simp
    show ?thesis
    proof (cases "?S ! f = NOISE")
      case True
      then have "f \<notin> members ?cl" using m1 [of f] by simp
      then show ?thesis using True mem by blast
    next
      case False
      then have "f \<in> members ?cl" using m1 [of f] tri vf f lv by auto
      then obtain k where k: "k < length ?cl" "f \<in> set (frameList (?cl ! k))"
        using mem by blast
      have "k' = k" if "k' < length ?cl" "f \<in> set (frameList (?cl ! k'))" for k'
        using dj k that unfolding disjoint_clusters_def by blast
      then show ?thesis using k False by blast
    qed
  qed
  have cand: "distinct (frameList (?cl ! k)) \<and>
              (\<forall>f \<in> set (frameList (?cl ! k)). f < Nframes ?M \<and> \<not> IgnoringRow ?M f)"
    if k: "k < length ?cl" for k
  proof -
    have "distinct (frameList (?cl ! k))" using ds k by simp
    moreover have "f < Nframes ?M \<and> \<not> IgnoringRow ?M f" if "f \<in> set (frameList (?cl ! k))" for f
    proof -
      have fm: "f \<in> members ?cl" using mem k that by blast
      then have fl: "f < length V" and "?S ! f = INCLUSTER \<or> V ! f" using m1 [of f] by auto
      then have "V ! f" using st unfolding inv_status_def by blast
      then have "f \<in> set ?F" using st fl unfolding inv_status_def by blast
      then show ?thesis by (simp add: FramesToCluster_of_set)
    qed
    ultimately show ?thesis by blast
  qed
  have s0: "status_after c 0 = replicate (Nframes ?M) UNASSIGNED"
    by (simp add: status_after_def)
  show ?thesis
  proof (intro exI [of _ c'] conjI)
    show "Cluster c = Inr c'" by (rule r)
    show "length (Status c') = Nframes ?M" by (rule len)
    show "\<forall>f < Nframes ?M. \<not> IgnoringRow ?M f \<longrightarrow>
              ((\<exists>!k. k < length ?cl \<and> f \<in> set (frameList (?cl ! k))) \<and> ?S ! f \<noteq> NOISE) \<or>
              ((\<forall>k < length ?cl. f \<notin> set (frameList (?cl ! k))) \<and> ?S ! f = NOISE)"
      using part by blast
    show "disjoint_clusters ?cl" by (rule dj)
    show "\<forall>k < length ?cl. distinct (frameList (?cl ! k)) \<and>
              (\<forall>f \<in> set (frameList (?cl ! k)). f < Nframes ?M \<and> \<not> IgnoringRow ?M f)"
      using cand by blast
    show "Status c' = status_after c (length ?F)" by (rule status_after_final [OF r])
    show "status_after c 0 = replicate (Nframes ?M) UNASSIGNED" by (rule s0)
    show "\<forall>k k'. k \<le> k' \<longrightarrow> status_mono (status_after c k) (status_after c k')"
      using status_after_mono by blast
  qed
qed

theorem Cluster_partition_witness:
  "\<exists>c'. Cluster ex_db4 = Inr c' \<and> Status c' = ''CCCN'' \<and>
     map frameList (clusters c') = [[0, 1, 2]] \<and> disjoint_clusters (clusters c') \<and>
     status_mono (status_after ex_db4 1) (status_after ex_db4 4)"
proof -
  have h: "\<forall>i j. GetElement (FrameDistances ex_db4) i j = GetElement (FrameDistances ex_db4) j i"
    "clusters ex_db4 = []"
    by (simp_all add: ex_db4_def configured_def SetupCluster_def Let_def
          getKeyInt_def getKeyDouble_def new_DBSCAN_def line_matrix_def abs_minus_commute)
  from Cluster_partition [OF h] obtain c' where
    c: "Cluster ex_db4 = Inr c'" "disjoint_clusters (clusters c')"
    "\<forall>k k'. k \<le> k' \<longrightarrow> status_mono (status_after ex_db4 k) (status_after ex_db4 k')"
    by (elim exE conjE) (rule that; assumption)
  have "map_sum id (\<lambda>r. (Status r, map frameList (clusters r))) (Cluster ex_db4) = Inr (''CCCN'', [[0, 1, 2]])"
    by code_simp
  then have "Status c' = ''CCCN''" "map frameList (clusters c') = [[0, 1, 2]]"
    using c(1) by simp_all
  moreover have "status_mono (status_after ex_db4 1) (status_after ex_db4 4)"
    using c(3) by simp
  ultimately show ?thesis using c(1,2) by (intro exI [of _ c']) simp
qed

theorem Cluster_noise_upgraded_counterexample:
  "status_after ex_db3 0 ! 0 = UNASSIGNED \<and> status_after ex_db3 1 ! 0 = NOISE \<and>
   status_after ex_db3 2 ! 0 = INCLUSTER"
  by code_simp

subsection \<open>Restoring sieved frames\<close>

lemma closest_upto_step:
  assumes "closest_upto cd frame cl k0 md mn" "k0 < length cl"
  shows "closest_upto cd frame cl (Suc k0)
           (if FrameCentroidDist cd frame (Cent (cl ! k0)) < md
            then FrameCentroidDist cd frame (Cent (cl ! k0)) else md)
           (if FrameCentroidDist cd frame (Cent (cl ! k0)) < md then Some k0 else mn)"
proof (cases mn)
  case None
  then show ?thesis
    using assms by (auto simp: closest_upto_def less_Suc_eq)
next
  case (Some k)
  then show ?thesis
    using assms by (auto simp: closest_upto_def less_Suc_eq)
qed

lemma closest_centroid_upto:
  assumes "cl = pre @ rest" "closest_upto cd frame cl (length pre) md mn"
    "closest_centroid cd frame rest (length pre) (md, mn) = (md', mn')"
  shows "closest_upto cd frame cl (length cl) md' mn'"
  using assms
proof (induction rest arbitrary: pre md mn)
  case Nil
  then show ?case by simp
next
  case (Cons C rest)
  let ?d = "FrameCentroidDist cd frame (Cent C)"
  have k0: "length pre < length cl" and C: "cl ! length pre = C"
    using Cons.prems(1) by simp_all
  have cl: "cl = (pre @ [C]) @ rest" using Cons.prems(1) by simp
  have st: "closest_upto cd frame cl (length (pre @ [C]))
              (if ?d < md then ?d else md) (if ?d < md then Some (length pre) else mn)"
    using closest_upto_step [OF Cons.prems(2) k0] unfolding C by simp
  have "closest_centroid cd frame rest (length (pre @ [C]))
          (if ?d < md then ?d else md, if ?d < md then Some (length pre) else mn) = (md', mn')"
    using Cons.prems(3) by (simp add: Let_def split: if_splits)
  from Cons.IH [OF cl st this] show ?case .
qed

lemma closest_centroid_spec:
  assumes "closest_centroid (Cdist c) frame (clusters c) 0 (DBL_MAX, None) = (md, mn)"
  shows "(mn = None \<longrightarrow> md = DBL_MAX) \<and>
         (\<forall>k. mn = Some k \<longleftrightarrow> nearest_centroid c frame k) \<and>
         (\<forall>k. mn = Some k \<longrightarrow> md = centroid_dist c frame k)"
proof -
  have "closest_upto (Cdist c) frame (clusters c) (length ([] :: 'a ClusterNode list)) DBL_MAX None"
    by (simp add: closest_upto_def)
  from closest_centroid_upto [where pre = "[]" and rest = "clusters c" and cl = "clusters c",
      OF _ this] assms
  have u: "closest_upto (Cdist c) frame (clusters c) (length (clusters c)) md mn" by simp
  show ?thesis
  proof (cases mn)
    case None
    then have "\<not> nearest_centroid c frame k" for k
      using u by (auto simp: closest_upto_def nearest_centroid_def centroid_dist_def)
    then show ?thesis using None u by (simp add: closest_upto_def)
  next
    case (Some k)
    then have n: "nearest_centroid c frame k" and md: "md = centroid_dist c frame k"
      using u by (auto simp: closest_upto_def nearest_centroid_def centroid_dist_def)
    have uniq: "k' = k" if "nearest_centroid c frame k'" for k'
    proof (rule ccontr)
      assume "k' \<noteq> k"
      then consider "k' < k" | "k < k'" by linarith
      then show False
      proof cases
        case 1
        have "centroid_dist c frame k < centroid_dist c frame k'"
          using n that 1 unfolding nearest_centroid_def by blast
        moreover have "centroid_dist c frame k' \<le> centroid_dist c frame k"
          using n that 1 unfolding nearest_centroid_def by (meson less_imp_le_nat)
        ultimately show False by simp
      next
        case 2
        have "centroid_dist c frame k' < centroid_dist c frame k"
          using n that 2 unfolding nearest_centroid_def by blast
        moreover have "centroid_dist c frame k \<le> centroid_dist c frame k'"
          using n that 2 unfolding nearest_centroid_def by (meson less_imp_le_nat)
        ultimately show False by simp
      qed
    qed
    have "mn = Some k' \<longleftrightarrow> nearest_centroid c frame k'" for k'
    proof
      assume "mn = Some k'"
      then show "nearest_centroid c frame k'" using Some n by simp
    next
      assume "nearest_centroid c frame k'"
      then show "mn = Some k'" using uniq Some by simp
    qed
    moreover have "mn = Some k' \<longrightarrow> md = centroid_dist c frame k'" for k'
      using Some md by simp
    ultimately show ?thesis using Some by simp
  qed
qed

lemma frame_within_epsilon_iff:
  "frame_within_epsilon cd eps frame ms \<longleftrightarrow> (\<exists>m \<in> set ms. FrameDist cd frame m < eps)"
  by (induction ms) auto

lemma sieve_frame_to_frame:
  assumes "\<not> sieveToCentroid c" "sieve_frame c frame = Inr (good, mn)"
  shows "(good \<and> mn = Some k) \<longleftrightarrow> restored_to c frame k"
proof -
  obtain md mn0 where
    cc: "closest_centroid (Cdist c) frame (clusters c) 0 (DBL_MAX, None) = (md, mn0)"
    by (metis prod.exhaust)
  note S = closest_centroid_spec [OF cc]
  show ?thesis
  proof (cases "md < epsilon c")
    case True
    then have "good" "mn = mn0" using assms cc by (simp_all add: sieve_frame_def)
    then show ?thesis using S True by (auto simp: restored_to_def)
  next
    case False
    then obtain k0 where k0: "mn0 = Some k0"
      using assms cc by (cases mn0) (simp_all add: sieve_frame_def)
    then have "mn = Some k0" "good = member_within c frame k0"
      using assms cc False by (simp_all add: sieve_frame_def member_within_def frame_within_epsilon_iff)
    then show ?thesis using S k0 False by (auto simp: restored_to_def)
  qed
qed

lemma sieve_loop_spec:
  assumes "sieve_loop c fs (ftc, a, b) = Inr (ftc', a', b')" "distinct fs"
    "\<forall>f \<in> set fs. f < length ftc \<and> ftc ! f = None" "\<not> sieveToCentroid c"
  shows "length ftc' = length ftc \<and>
         (\<forall>f < length ftc. \<forall>k. ftc' ! f = Some k \<longleftrightarrow>
            (if f \<in> set fs \<and> IgnoringRow (FrameDistances c) f then restored_to c f k
             else ftc ! f = Some k))"
  using assms(1,2,3)
proof (induction fs arbitrary: ftc a b)
  case Nil
  then show ?case by simp
next
  case (Cons f0 fs)
  have f0: "f0 < length ftc" "ftc ! f0 = None" "f0 \<notin> set fs" "distinct fs"
    using Cons.prems(2,3) by simp_all
  show ?case
  proof (cases "IgnoringRow (FrameDistances c) f0")
    case False
    then have "sieve_loop c fs (ftc, a, b) = Inr (ftc', a', b')"
      using Cons.prems(1) by simp
    from Cons.IH [OF this f0(4)] Cons.prems(3) False f0 show ?thesis by auto
  next
    case True
    then obtain good mn where sf: "sieve_frame c f0 = Inr (good, mn)"
      using Cons.prems(1) by (cases "sieve_frame c f0") auto
    let ?ftc1 = "if good then ftc[f0 := mn] else ftc"
    obtain a1 b1 where l: "sieve_loop c fs (?ftc1, a1, b1) = Inr (ftc', a', b')"
      using Cons.prems(1) True sf by (cases good) auto
    have pre: "\<forall>f \<in> set fs. f < length ?ftc1 \<and> ?ftc1 ! f = None"
      using Cons.prems(3) f0 by (auto simp: nth_list_update)
    note IH = Cons.IH [OF l f0(4) pre]
    have here: "?ftc1 ! f0 = Some k \<longleftrightarrow> restored_to c f0 k" for k
      using sieve_frame_to_frame [OF assms(4) sf, of k] f0 by auto
    have other: "f \<noteq> f0 \<Longrightarrow> ?ftc1 ! f = ftc ! f" for f by simp
    have "ftc' ! f = Some k \<longleftrightarrow>
            (if f \<in> set (f0 # fs) \<and> IgnoringRow (FrameDistances c) f then restored_to c f k
             else ftc ! f = Some k)" if "f < length ftc" for f k
    proof (cases "f = f0")
      case f: True
      then have "ftc' ! f = Some k \<longleftrightarrow> ?ftc1 ! f0 = Some k"
        using IH f0 that by simp
      then show ?thesis using here True f by simp
    next
      case False
      then show ?thesis using IH that other [OF False] by simp
    qed
    moreover have "length ftc' = length ftc" using IH by simp
    ultimately show ?thesis by blast
  qed
qed

lemma add_frame_nth:
  "k < length cl \<Longrightarrow>
   add_frame ftc f cl ! k =
     (if ftc ! f = Some k then AddFrameToCluster f (cl ! k) else cl ! k)"
  by (auto simp: add_frame_def nth_list_update split: option.splits)

lemma add_frame_length [simp]: "length (add_frame ftc f cl) = length cl"
  by (simp add: add_frame_def split: option.splits)

lemma fold_add_frame_length [simp]: "length (fold (add_frame ftc) fs cl) = length cl"
  by (induction fs arbitrary: cl) simp_all

lemma fold_add_frame:
  assumes "k < length cl"
  shows "length (fold (add_frame ftc) fs cl) = length cl \<and>
         Cent (fold (add_frame ftc) fs cl ! k) = Cent (cl ! k) \<and>
         frameList (fold (add_frame ftc) fs cl ! k) =
           frameList (cl ! k) @ filter (\<lambda>f. ftc ! f = Some k) fs"
  using assms
proof (induction fs arbitrary: cl)
  case Nil
  then show ?case by simp
next
  case (Cons f fs)
  have "k < length (add_frame ftc f cl)" using Cons.prems by simp
  from Cons.IH [OF this] show ?case
    using Cons.prems by (simp add: add_frame_nth AddFrameToCluster_def)
qed

lemma AddSievedFrames_frame:
  assumes "AddSievedFrames c = Inr (c', x)"
  shows "Status c' = Status c" "minPoints c' = minPoints c" "epsilon c' = epsilon c"
    "FrameDistances c' = FrameDistances c" "Cdist c' = Cdist c"
    "length (clusters c') = length (clusters c)"
proof -
  obtain ftc a b where
    "c' = c\<lparr> clusters := fold (add_frame ftc) [0..<Nframes (FrameDistances c)] (clusters c) \<rparr>"
    using assms by (auto simp: AddSievedFrames_def Let_def split: sum.splits)
  then show "Status c' = Status c" "minPoints c' = minPoints c" "epsilon c' = epsilon c"
    "FrameDistances c' = FrameDistances c" "Cdist c' = Cdist c"
    "length (clusters c') = length (clusters c)"
    by simp_all
qed

lemma AddSievedFrames_clusters:
  assumes "\<not> sieveToCentroid c" "AddSievedFrames c = Inr (c', x)" "k < length (clusters c)"
  shows "frameList (clusters c' ! k) =
           frameList (clusters c ! k) @
           filter (\<lambda>f. IgnoringRow (FrameDistances c) f \<and> restored_to c f k)
             [0..<Nframes (FrameDistances c)]"
    and "Cent (clusters c' ! k) = Cent (clusters c ! k)"
proof -
  let ?n = "Nframes (FrameDistances c)"
  obtain ftc a b where
    l: "sieve_loop c [0..<?n] (replicate ?n None, 0, 0) = Inr (ftc, a, b)"
    and c': "c' = c\<lparr> clusters := fold (add_frame ftc) [0..<?n] (clusters c) \<rparr>"
    using assms(2) by (auto simp: AddSievedFrames_def Let_def split: sum.splits)
  have "length ftc = length (replicate ?n (None :: nat option)) \<and>
         (\<forall>f < length (replicate ?n (None :: nat option)). \<forall>k. ftc ! f = Some k \<longleftrightarrow>
            (if f \<in> set [0..<?n] \<and> IgnoringRow (FrameDistances c) f then restored_to c f k
             else replicate ?n (None :: nat option) ! f = Some k))"
    using l assms(1) by (intro sieve_loop_spec) simp_all
  then have ftc: "f < ?n \<Longrightarrow>
      ftc ! f = Some k \<longleftrightarrow> IgnoringRow (FrameDistances c) f \<and> restored_to c f k" for f k
    by simp
  have "filter (\<lambda>f. ftc ! f = Some k) [0..<?n] =
        filter (\<lambda>f. IgnoringRow (FrameDistances c) f \<and> restored_to c f k) [0..<?n]"
    by (rule filter_cong) (simp_all add: ftc)
  then show "frameList (clusters c' ! k) =
           frameList (clusters c ! k) @
           filter (\<lambda>f. IgnoringRow (FrameDistances c) f \<and> restored_to c f k) [0..<?n]"
    using fold_add_frame [OF assms(3), of ftc "[0..<?n]"] by (simp add: c')
  show "Cent (clusters c' ! k) = Cent (clusters c ! k)"
    using fold_add_frame [OF assms(3), of ftc "[0..<?n]"] by (simp add: c')
qed

text \<open>
  Claim C5. Under the frame-distance policy (\<open>sievetoframe\<close>), the frames that
  \<open>AddSievedFrames\<close> appends to the cluster at position \<open>k\<close> are exactly the sieved frames
  for which \<open>k\<close> is the cluster of minimal centroid distance (the first one, below
  \<open>DBL_MAX\<close>) and for which that centroid distance is strictly less than \<open>epsilon\<close> or
  some member \<open>m\<close> of the cluster, as it was before the restoration, has
  \<open>FrameDist(frame, m)\<close> strictly less than \<open>epsilon\<close>. So a frame newly assigned to a
  cluster has minimal centroid distance there and passes one of the two strict tests,
  and a sieved frame whose centroid distance to the cluster is \<open>epsilon\<close> or more and
  which has no member within \<open>epsilon\<close> is not added.
\<close>

theorem AddSievedFrames_frame_distance:
  assumes "\<not> sieveToCentroid c" and "AddSievedFrames c = Inr (c', x)"
    and "k < length (clusters c)"
  shows
    "frameList (clusters c' ! k) =
       frameList (clusters c ! k) @
       filter (\<lambda>f. IgnoringRow (FrameDistances c) f \<and> restored_to c f k)
         [0..<Nframes (FrameDistances c)] \<and>
     (\<forall>f. f \<in> set (frameList (clusters c' ! k)) \<and> f \<notin> set (frameList (clusters c ! k)) \<longrightarrow>
        f < Nframes (FrameDistances c) \<and> IgnoringRow (FrameDistances c) f \<and>
        (\<forall>j < length (clusters c).
           FrameCentroidDist (Cdist c) f (Cent (clusters c ! k))
             \<le> FrameCentroidDist (Cdist c) f (Cent (clusters c ! j))) \<and>
        (FrameCentroidDist (Cdist c) f (Cent (clusters c ! k)) < epsilon c \<or>
         (\<exists>m \<in> set (frameList (clusters c ! k)). FrameDist (Cdist c) f m < epsilon c))) \<and>
     (\<forall>f. epsilon c \<le> FrameCentroidDist (Cdist c) f (Cent (clusters c ! k)) \<and>
          (\<forall>m \<in> set (frameList (clusters c ! k)). epsilon c \<le> FrameDist (Cdist c) f m) \<and>
          f \<notin> set (frameList (clusters c ! k)) \<longrightarrow>
        f \<notin> set (frameList (clusters c' ! k)))"
proof -
  note eq = AddSievedFrames_clusters(1) [OF assms]
  have r: "restored_to c f k \<Longrightarrow>
        (\<forall>j < length (clusters c).
           FrameCentroidDist (Cdist c) f (Cent (clusters c ! k))
             \<le> FrameCentroidDist (Cdist c) f (Cent (clusters c ! j))) \<and>
        (FrameCentroidDist (Cdist c) f (Cent (clusters c ! k)) < epsilon c \<or>
         (\<exists>m \<in> set (frameList (clusters c ! k)). FrameDist (Cdist c) f m < epsilon c))" for f
    unfolding restored_to_def nearest_centroid_def member_within_def centroid_dist_def
    by (metis less_imp_le not_le_imp_less)
  have a: "f < Nframes (FrameDistances c) \<and> IgnoringRow (FrameDistances c) f \<and> restored_to c f k"
    if "f \<in> set (frameList (clusters c' ! k))" "f \<notin> set (frameList (clusters c ! k))" for f
    using that by (auto simp: eq)
  have b: "f \<notin> set (frameList (clusters c' ! k))"
    if "epsilon c \<le> FrameCentroidDist (Cdist c) f (Cent (clusters c ! k))"
      "\<forall>m \<in> set (frameList (clusters c ! k)). epsilon c \<le> FrameDist (Cdist c) f m"
      "f \<notin> set (frameList (clusters c ! k))" for f
  proof -
    have "\<not> restored_to c f k"
      using that(1,2) unfolding restored_to_def member_within_def centroid_dist_def
      by (meson not_le)
    then show ?thesis using that(3) by (auto simp: eq)
  qed
  show ?thesis
  proof (intro conjI allI impI)
    show "frameList (clusters c' ! k) =
       frameList (clusters c ! k) @
       filter (\<lambda>f. IgnoringRow (FrameDistances c) f \<and> restored_to c f k)
         [0..<Nframes (FrameDistances c)]" by (rule eq)
  next
    fix f assume f: "f \<in> set (frameList (clusters c' ! k)) \<and> f \<notin> set (frameList (clusters c ! k))"
    show "f < Nframes (FrameDistances c)" using a f by blast
    show "IgnoringRow (FrameDistances c) f" using a f by blast
    show "FrameCentroidDist (Cdist c) f (Cent (clusters c ! k)) < epsilon c \<or>
         (\<exists>m \<in> set (frameList (clusters c ! k)). FrameDist (Cdist c) f m < epsilon c)"
      using a f r by blast
    fix j assume "j < length (clusters c)"
    then show "FrameCentroidDist (Cdist c) f (Cent (clusters c ! k))
             \<le> FrameCentroidDist (Cdist c) f (Cent (clusters c ! j))"
      using a f r by blast
  next
    fix f assume "epsilon c \<le> FrameCentroidDist (Cdist c) f (Cent (clusters c ! k)) \<and>
          (\<forall>m \<in> set (frameList (clusters c ! k)). epsilon c \<le> FrameDist (Cdist c) f m) \<and>
          f \<notin> set (frameList (clusters c ! k))"
    then show "f \<notin> set (frameList (clusters c' ! k))" using b by blast
  qed
qed

text \<open>
  Claim C10. \<open>AddSievedFrames\<close> never writes to \<open>Status_\<close>: the status array after the
  restoration is the one before it, and so is the list printed by \<open>ClusterResults\<close>.
  After \<open>Cluster\<close>, every ignored (sieved) frame has the status \<open>UNASSIGNED\<close>; it keeps it
  through the restoration, whether it is added to a cluster or discarded, and its number
  is not in the \<open>#NOISE_FRAMES\<close> list.
\<close>

theorem AddSievedFrames_keeps_Status:
  "(\<forall>c' x. AddSievedFrames c = Inr (c', x) \<longrightarrow>
      Status c' = Status c \<and> ClusterResults c' = ClusterResults c) \<and>
   (\<forall>r r' x f. Cluster c = Inr r \<and> AddSievedFrames r = Inr (r', x) \<and>
      f < Nframes (FrameDistances c) \<and> IgnoringRow (FrameDistances c) f \<longrightarrow>
      Status r ! f = UNASSIGNED \<and> Status r' ! f = UNASSIGNED \<and>
      f + 1 \<notin> set (ClusterResults r'))"
proof (intro conjI allI impI)
  fix c' x assume a: "AddSievedFrames c = Inr (c', x)"
  show "Status c' = Status c" using a by (rule AddSievedFrames_frame(1))
  then show "ClusterResults c' = ClusterResults c" by (simp add: ClusterResults_def)
next
  fix r r' x f
  assume a: "Cluster c = Inr r \<and> AddSievedFrames r = Inr (r', x) \<and>
      f < Nframes (FrameDistances c) \<and> IgnoringRow (FrameDistances c) f"
  let ?F = "FramesToCluster_of (FrameDistances c)"
  from Cluster_inv [of False c] a obtain V where
    Q: "inv_quiet False (RegionQuery c ?F) (minPoints c) ?F (set ?F) (clusters r) V (Status r)"
    and len: "length (Status r) = Nframes (FrameDistances c)" by auto
  have "f \<notin> set ?F" using a by (simp add: FramesToCluster_of_set)
  then show u: "Status r ! f = UNASSIGNED"
    using final_status(3) [OF Q RegionQuery_closed, of f] a len by simp
  have s: "Status r' = Status r" using a AddSievedFrames_frame(1) by blast
  show "Status r' ! f = UNASSIGNED" using u s by simp
  show "f + 1 \<notin> set (ClusterResults r')"
    using u s by (auto simp: ClusterResults_def)
qed

lemma ex_sieve_Cluster:
  "map_sum id (\<lambda>r. (Status r, clusters r)) (Cluster ex_sieve) =
     Inr (Status ex_sieve_clustered, clusters ex_sieve_clustered)"
  by code_simp

lemma ex_sieve_restore:
  "map_sum id (\<lambda>(r, x). (map frameList (clusters r), x)) (AddSievedFrames ex_sieve_clustered) =
     Inr ([[0, 1, 2, 3]], 1, 2)"
  by code_simp

lemma ex_sieve_run:
  "(case Cluster ex_sieve of Inl e \<Rightarrow> Inl e
    | Inr r \<Rightarrow> map_sum id (\<lambda>(r', x). (Status r', map frameList (clusters r'), x)) (AddSievedFrames r)) =
   Inr (''CCCUU'', [[0, 1, 2, 3]], 1, 2)"
  by code_simp

lemma ex_edge_restore:
  "map_sum id (\<lambda>(r, x). (map frameList (clusters r), x)) (AddSievedFrames ex_edge_clustered) =
     Inr ([[0, 1, 2, 4]], 1, 2)"
  by code_simp

theorem AddSievedFrames_frame_distance_witness:
  "(\<exists>c' x. AddSievedFrames ex_sieve_clustered = Inr (c', x) \<and>
      frameList (clusters c' ! 0) = [0, 1, 2, 3] \<and>
      FrameCentroidDist (Cdist ex_sieve_clustered) 3 (Cent (clusters ex_sieve_clustered ! 0)) = 1 \<and>
      epsilon ex_sieve_clustered = 1 \<and>
      (\<exists>m \<in> set (frameList (clusters ex_sieve_clustered ! 0)).
         FrameDist (Cdist ex_sieve_clustered) 3 m < epsilon ex_sieve_clustered)) \<and>
   (\<exists>c' x. AddSievedFrames ex_edge_clustered = Inr (c', x) \<and>
      FrameCentroidDist (Cdist ex_edge_clustered) 3 (Cent (clusters ex_edge_clustered ! 0)) = 1 \<and>
      epsilon ex_edge_clustered = 1 \<and>
      3 \<notin> set (frameList (clusters c' ! 0)) \<and> 4 \<in> set (frameList (clusters c' ! 0)))"
proof -
  obtain c' x where a: "AddSievedFrames ex_sieve_clustered = Inr (c', x)"
    and fl: "map frameList (clusters c') = [[0, 1, 2, 3]]"
    using ex_sieve_restore by (cases "AddSievedFrames ex_sieve_clustered") auto
  have h: "\<not> sieveToCentroid ex_sieve_clustered" "0 < length (clusters ex_sieve_clustered)"
    by (simp_all add: ex_sieve_clustered_def ex_sieve_def configured_def SetupCluster_def Let_def
          getKeyInt_def getKeyDouble_def)
  have d: "FrameCentroidDist (Cdist ex_sieve_clustered) 3 (Cent (clusters ex_sieve_clustered ! 0)) = 1"
    "epsilon ex_sieve_clustered = 1"
    by (simp_all add: ex_sieve_clustered_def ex_sieve_def configured_def SetupCluster_def Let_def
          getKeyInt_def getKeyDouble_def new_DBSCAN_def line_Cdist_def ex_pos_sieve_def)
  have f0: "frameList (clusters c' ! 0) = [0, 1, 2, 3]"
    using fl by (cases "clusters c'") auto
  have old: "frameList (clusters ex_sieve_clustered ! 0) = [0, 1, 2]"
    by (simp add: ex_sieve_clustered_def)
  note T = AddSievedFrames_frame_distance [OF h(1) a h(2)]
  have "FrameCentroidDist (Cdist ex_sieve_clustered) 3 (Cent (clusters ex_sieve_clustered ! 0))
          < epsilon ex_sieve_clustered \<or>
        (\<exists>m \<in> set (frameList (clusters ex_sieve_clustered ! 0)).
           FrameDist (Cdist ex_sieve_clustered) 3 m < epsilon ex_sieve_clustered)"
    using T [THEN conjunct2, THEN conjunct1, rule_format, of 3] by (simp add: f0 old)
  then have m: "\<exists>m \<in> set (frameList (clusters ex_sieve_clustered ! 0)).
           FrameDist (Cdist ex_sieve_clustered) 3 m < epsilon ex_sieve_clustered"
    using d by simp
  have first: "\<exists>c' x. AddSievedFrames ex_sieve_clustered = Inr (c', x) \<and>
      frameList (clusters c' ! 0) = [0, 1, 2, 3] \<and>
      FrameCentroidDist (Cdist ex_sieve_clustered) 3 (Cent (clusters ex_sieve_clustered ! 0)) = 1 \<and>
      epsilon ex_sieve_clustered = 1 \<and>
      (\<exists>m \<in> set (frameList (clusters ex_sieve_clustered ! 0)).
         FrameDist (Cdist ex_sieve_clustered) 3 m < epsilon ex_sieve_clustered)"
    using a f0 d m by blast
  obtain e' y where b: "AddSievedFrames ex_edge_clustered = Inr (e', y)"
    and el: "map frameList (clusters e') = [[0, 1, 2, 4]]"
    using ex_edge_restore by (cases "AddSievedFrames ex_edge_clustered") auto
  have g: "\<not> sieveToCentroid ex_edge_clustered" "0 < length (clusters ex_edge_clustered)"
    by (simp_all add: ex_edge_clustered_def configured_def SetupCluster_def Let_def
          getKeyInt_def getKeyDouble_def)
  have de: "FrameCentroidDist (Cdist ex_edge_clustered) 3 (Cent (clusters ex_edge_clustered ! 0)) = 1"
    "epsilon ex_edge_clustered = 1"
    "\<forall>m \<in> set (frameList (clusters ex_edge_clustered ! 0)).
       epsilon ex_edge_clustered \<le> FrameDist (Cdist ex_edge_clustered) 3 m"
    "3 \<notin> set (frameList (clusters ex_edge_clustered ! 0))"
    by (simp_all add: ex_edge_clustered_def configured_def SetupCluster_def Let_def
          getKeyInt_def getKeyDouble_def new_DBSCAN_def line_Cdist_def ex_pos_edge_def)
  note U = AddSievedFrames_frame_distance [OF g(1) b g(2)]
  have n3: "3 \<notin> set (frameList (clusters e' ! 0))"
    using U [THEN conjunct2, THEN conjunct2, rule_format, of 3] de by simp
  have e0: "frameList (clusters e' ! 0) = [0, 1, 2, 4]"
    using el by (cases "clusters e'") auto
  have second: "\<exists>c' x. AddSievedFrames ex_edge_clustered = Inr (c', x) \<and>
      FrameCentroidDist (Cdist ex_edge_clustered) 3 (Cent (clusters ex_edge_clustered ! 0)) = 1 \<and>
      epsilon ex_edge_clustered = 1 \<and>
      3 \<notin> set (frameList (clusters c' ! 0)) \<and> 4 \<in> set (frameList (clusters c' ! 0))"
    using b de(1,2) n3 e0 by (intro exI [of _ e'] exI [of _ y]) simp
  show ?thesis using first second by (rule conjI)
qed

theorem AddSievedFrames_keeps_Status_witness:
  "\<exists>r r' x. Cluster ex_sieve = Inr r \<and> AddSievedFrames r = Inr (r', x) \<and>
     Status r' = ''CCCUU'' \<and> map frameList (clusters r') = [[0, 1, 2, 3]] \<and>
     Status r' ! 4 = UNASSIGNED \<and> 5 \<notin> set (ClusterResults r')"
proof -
  obtain r where r: "Cluster ex_sieve = Inr r"
    using ex_sieve_run by (cases "Cluster ex_sieve") auto
  obtain r' x where a: "AddSievedFrames r = Inr (r', x)"
    and s: "Status r' = ''CCCUU''" "map frameList (clusters r') = [[0, 1, 2, 3]]"
    using ex_sieve_run r by (cases "AddSievedFrames r") auto
  have n: "4 < Nframes (FrameDistances ex_sieve)" "IgnoringRow (FrameDistances ex_sieve) 4"
    by (simp_all add: ex_sieve_def configured_def SetupCluster_def Let_def
          getKeyInt_def getKeyDouble_def new_DBSCAN_def line_matrix_def)
  have "Status r' ! 4 = UNASSIGNED \<and> 4 + 1 \<notin> set (ClusterResults r')"
    using AddSievedFrames_keeps_Status [of ex_sieve, THEN conjunct2, rule_format, of r r' x 4]
      r a n by simp
  then show ?thesis using r a s by auto
qed

lemma DBL_MAX_value: "DBL_MAX = (2 - 1 / 2 ^ 52) * 2 ^ 1023"
  unfolding DBL_MAX_def by simp

end
